theory Spec2Isabelle
  imports Complex_Main "HOL-Library.Word"
begin

section \<open>Strings, indexing and character classes\<close>

text \<open>
  A JavaScript string is a sequence of UTF-16 code units. \<open>line[i]\<close> is the one-unit
  string at index \<open>i\<close>, or \<open>undefined\<close> when \<open>i\<close> is not an index of the string: the
  model returns \<open>None\<close> there, and indices are integers so that \<open>selFrom - 2\<close> may be
  negative as it is in the source.
\<close>

type_synonym unit16 = "16 word"
type_synonym jsstring = "unit16 list"

definition js :: "string \<Rightarrow> jsstring" where
  "js s = map of_char s"

definition charAt :: "jsstring \<Rightarrow> int \<Rightarrow> unit16 option" where
  "charAt s i = (if 0 \<le> i \<and> i < int (length s) then Some (s ! nat i) else None)"

definition underscore :: unit16 where
  "underscore = 0x5F"

text \<open>\<open>line[i] === "_"\<close>: strict equality with the one-unit string; \<open>undefined\<close> differs.\<close>

definition isUnderscore :: "unit16 option \<Rightarrow> bool" where
  "isUnderscore v = (v = Some underscore)"

text \<open>\<open>String.prototype.slice(a, b)\<close> for non-negative integer arguments.\<close>

definition str_slice :: "jsstring \<Rightarrow> nat \<Rightarrow> nat \<Rightarrow> jsstring" where
  "str_slice s a b = take (b - a) (drop a s)"

text \<open>
  A regular-expression character class: its atoms in the order of the source, and whether
  it is negated. \<open>\s\<close> is the WhiteSpace and LineTerminator code units of ECMAScript.
\<close>

datatype classAtom = ClassS | ClassChar unit16

definition isWhiteSpace :: "unit16 \<Rightarrow> bool" where
  "isWhiteSpace c =
     (c = 0x09 \<or> c = 0x0A \<or> c = 0x0B \<or> c = 0x0C \<or> c = 0x0D \<or> c = 0x20 \<or> c = 0xA0
      \<or> c = 0x1680 \<or> (0x2000 \<le> c \<and> c \<le> 0x200A) \<or> c = 0x2028 \<or> c = 0x2029
      \<or> c = 0x202F \<or> c = 0x205F \<or> c = 0x3000 \<or> c = 0xFEFF)"

fun atomMatches :: "classAtom \<Rightarrow> unit16 \<Rightarrow> bool" where
  "atomMatches ClassS c = isWhiteSpace c"
| "atomMatches (ClassChar d) c = (c = d)"

definition classMatches :: "bool \<Rightarrow> classAtom list \<Rightarrow> unit16 \<Rightarrow> bool" where
  "classMatches negated atoms c = (negated \<noteq> list_ex (\<lambda>a. atomMatches a c) atoms)"

text \<open>\<open>const STOP_CHARS = /[\s_*~`[\]()|#]/\<close>\<close>

definition STOP_CHARS :: "classAtom list" where
  "STOP_CHARS = [ClassS, ClassChar 0x5F, ClassChar 0x2A, ClassChar 0x7E, ClassChar 0x60,
                 ClassChar 0x5B, ClassChar 0x5D, ClassChar 0x28, ClassChar 0x29,
                 ClassChar 0x7C, ClassChar 0x23]"

text \<open>
  \<open>STOP_CHARS.test(v)\<close> converts its argument to a string and searches it for a unit of
  the class; \<open>undefined\<close> converts to the nine letters of its name.
\<close>

definition toString :: "unit16 option \<Rightarrow> jsstring" where
  "toString v = (case v of None \<Rightarrow> js ''undefined'' | Some c \<Rightarrow> [c])"

definition STOP_CHARS_test :: "unit16 option \<Rightarrow> bool" where
  "STOP_CHARS_test v = list_ex (classMatches False STOP_CHARS) (toString v)"

section \<open>Word detection\<close>

text \<open>The result type \<open>{ from: number; to: number }\<close> of the word detector and of the line slice.\<close>

record ColumnRange =
  range_from :: nat
  range_to :: nat

text \<open>\<open>while (left > 0 && !STOP_CHARS.test(line[left - 1])) left--;\<close>\<close>

fun (domintros) expandLeft :: "jsstring \<Rightarrow> nat \<Rightarrow> nat" where
  "expandLeft lineText 0 = 0"
| "expandLeft lineText (Suc left) =
     (if \<not> STOP_CHARS_test (charAt lineText (int left)) then expandLeft lineText left
      else Suc left)"

text \<open>\<open>while (right < line.length && !STOP_CHARS.test(line[right])) right++;\<close>\<close>

function (domintros) expandRight :: "jsstring \<Rightarrow> nat \<Rightarrow> nat" where
  "expandRight lineText right =
     (if right < length lineText \<and> \<not> STOP_CHARS_test (charAt lineText (int right))
      then expandRight lineText (Suc right) else right)"
  by pat_completeness auto
termination
  by (relation "measure (\<lambda>(lineText, right). length lineText - right)") auto

declare expandRight.simps [simp del]

definition detectWordRange :: "jsstring \<Rightarrow> nat \<Rightarrow> ColumnRange" where
  "detectWordRange lineText ch =
     (if ch < length lineText \<and> STOP_CHARS_test (charAt lineText (int ch))
      then \<lparr>range_from = ch, range_to = ch\<rparr>
      else \<lparr>range_from = expandLeft lineText ch, range_to = expandRight lineText ch\<rparr>)"

section \<open>Underline-state classification\<close>

record UnderlineState =
  isUnderlined :: bool
  markFrom :: nat
  markTo :: nat
  contentFrom :: nat
  contentTo :: nat

definition getUnderlineState :: "jsstring \<Rightarrow> nat \<Rightarrow> nat \<Rightarrow> UnderlineState" where
  "getUnderlineState lineText selFrom selTo =
     (if int selTo - int selFrom \<ge> 2
         \<and> isUnderscore (charAt lineText (int selFrom))
         \<and> isUnderscore (charAt lineText (int selTo - 1))
         \<and> \<not> isUnderscore (charAt lineText (int selFrom + 1))
      then \<lparr>isUnderlined = True, markFrom = selFrom, markTo = selTo,
            contentFrom = selFrom + 1, contentTo = selTo - 1\<rparr>
      else if selFrom > 0
         \<and> selTo < length lineText
         \<and> isUnderscore (charAt lineText (int selFrom - 1))
         \<and> isUnderscore (charAt lineText (int selTo))
         \<and> \<not> isUnderscore (charAt lineText (int selFrom - 2))
         \<and> \<not> isUnderscore (charAt lineText (int selTo + 1))
      then \<lparr>isUnderlined = True, markFrom = selFrom - 1, markTo = selTo + 1,
            contentFrom = selFrom, contentTo = selTo\<rparr>
      else \<lparr>isUnderlined = False, markFrom = selFrom, markTo = selTo,
            contentFrom = selFrom, contentTo = selTo\<rparr>)"

section \<open>The editor\<close>

text \<open>
  The editor belongs to the host. The model is the line-addressable buffer that the
  tests' \<open>makeEditor\<close> builds: \<open>getLine\<close> reads a line of an array (\<open>undefined\<close>
  outside it, on which every later \<open>line.length\<close> or \<open>line.slice\<close> throws a
  TypeError: the value \<open>None\<close> of the operations below), \<open>replaceRange\<close> on one line
  is \<open>line.slice(0, from.ch) + text + line.slice(to.ch)\<close>, and \<open>replaceSelection\<close> is
  the same at the selection. The selection is kept as state, so that
  \<open>setSelection\<close> and \<open>setCursor\<close> can be observed.
\<close>

record EditorPosition =
  line :: nat
  ch :: nat

record Editor =
  lines :: "jsstring list"
  cursorFrom :: EditorPosition
  cursorTo :: EditorPosition

definition getLine :: "Editor \<Rightarrow> nat \<Rightarrow> jsstring option" where
  "getLine editor n = (if n < length (lines editor) then Some (lines editor ! n) else None)"

definition replaceRange ::
  "Editor \<Rightarrow> jsstring \<Rightarrow> EditorPosition \<Rightarrow> EditorPosition \<Rightarrow> Editor option" where
  "replaceRange editor text p q =
     (if line p = line q then
        (case getLine editor (line p) of
           None \<Rightarrow> None
         | Some lineText \<Rightarrow>
             Some (editor\<lparr>lines := (lines editor)
                     [line p := str_slice lineText 0 (ch p) @ text @ drop (ch q) lineText]\<rparr>))
      else Some editor)"

definition replaceSelection :: "Editor \<Rightarrow> jsstring \<Rightarrow> Editor option" where
  "replaceSelection editor text =
     (case getLine editor (line (cursorFrom editor)) of
        None \<Rightarrow> None
      | Some lineText \<Rightarrow>
          Some (editor\<lparr>lines := (lines editor)
                  [line (cursorFrom editor) :=
                     str_slice lineText 0 (ch (cursorFrom editor)) @ text
                     @ drop (ch (cursorTo editor)) lineText]\<rparr>))"

definition setSelection :: "Editor \<Rightarrow> EditorPosition \<Rightarrow> EditorPosition \<Rightarrow> Editor" where
  "setSelection editor anchor head = editor\<lparr>cursorFrom := anchor, cursorTo := head\<rparr>"

definition setCursor :: "Editor \<Rightarrow> EditorPosition \<Rightarrow> Editor" where
  "setCursor editor p = editor\<lparr>cursorFrom := p, cursorTo := p\<rparr>"

section \<open>Single-line toggle\<close>

definition applySingleLineToggle :: "Editor \<Rightarrow> nat \<Rightarrow> nat \<Rightarrow> nat \<Rightarrow> Editor option" where
  "applySingleLineToggle editor lineNum selFrom selTo =
     (if selFrom = selTo then Some editor
      else
        (case getLine editor lineNum of
           None \<Rightarrow> None
         | Some lineText \<Rightarrow>
             (let state = getUnderlineState lineText selFrom selTo;
                  content = str_slice lineText (contentFrom state) (contentTo state)
              in if isUnderlined state then
                   (case replaceRange editor content
                           \<lparr>line = lineNum, ch = markFrom state\<rparr>
                           \<lparr>line = lineNum, ch = markTo state\<rparr> of
                      None \<Rightarrow> None
                    | Some editor' \<Rightarrow>
                        Some (setSelection editor'
                                \<lparr>line = lineNum, ch = markFrom state\<rparr>
                                \<lparr>line = lineNum, ch = markFrom state + length content\<rparr>))
                 else
                   (case replaceRange editor ([underscore] @ content @ [underscore])
                           \<lparr>line = lineNum, ch = selFrom\<rparr>
                           \<lparr>line = lineNum, ch = selTo\<rparr> of
                      None \<Rightarrow> None
                    | Some editor' \<Rightarrow>
                        (let afterMark = selFrom + length content + 2
                         in Some (setSelection editor'
                                    \<lparr>line = lineNum, ch = afterMark\<rparr>
                                    \<lparr>line = lineNum, ch = afterMark\<rparr>))))))"

section \<open>Multi-line toggle\<close>

definition getLineSlice ::
  "jsstring \<Rightarrow> nat \<Rightarrow> EditorPosition \<Rightarrow> EditorPosition \<Rightarrow> ColumnRange" where
  "getLineSlice lineText lineNum selFrom selTo =
     (if lineNum = line selFrom \<and> lineNum = line selTo
      then \<lparr>range_from = ch selFrom, range_to = min (ch selTo) (length lineText)\<rparr>
      else if lineNum = line selFrom
      then \<lparr>range_from = ch selFrom, range_to = length lineText\<rparr>
      else if lineNum = line selTo
      then \<lparr>range_from = 0, range_to = min (ch selTo) (length lineText)\<rparr>
      else \<lparr>range_from = 0, range_to = length lineText\<rparr>)"

text \<open>
  The loop of \<open>countUnderlinedLines\<close>, \<open>for (let i = selFrom.line; i <= selTo.line; i++)\<close>,
  with its two counters as accumulators.
\<close>

function countLoop ::
  "Editor \<Rightarrow> EditorPosition \<Rightarrow> EditorPosition \<Rightarrow> nat \<Rightarrow> nat \<Rightarrow> nat \<Rightarrow> (nat \<times> nat) option" where
  "countLoop editor selFrom selTo i underlined totalCount =
     (if i \<le> line selTo then
        (case getLine editor i of
           None \<Rightarrow> None
         | Some lineText \<Rightarrow>
             (let sl = getLineSlice lineText i selFrom selTo
              in if range_from sl \<ge> range_to sl
                 then countLoop editor selFrom selTo (Suc i) underlined totalCount
                 else if isUnderlined (getUnderlineState lineText (range_from sl) (range_to sl))
                 then countLoop editor selFrom selTo (Suc i) (underlined + 1) (totalCount + 1)
                 else countLoop editor selFrom selTo (Suc i) underlined (totalCount + 1)))
      else Some (underlined, totalCount))"
  by pat_completeness auto
termination
  by (relation "measure (\<lambda>(editor, selFrom, selTo, i, underlined, totalCount). Suc (line selTo) - i)")
     auto

declare countLoop.simps [simp del]

definition countUnderlinedLines ::
  "Editor \<Rightarrow> EditorPosition \<Rightarrow> EditorPosition \<Rightarrow> (nat \<times> nat) option" where
  "countUnderlinedLines editor selFrom selTo = countLoop editor selFrom selTo (line selFrom) 0 0"

text \<open>
  \<open>underlined > total / 2\<close>: the division is that of JavaScript numbers, exact on these
  counts.
\<close>

definition shouldRemove :: "nat \<Rightarrow> nat \<Rightarrow> bool" where
  "shouldRemove underlined totalCount = (real underlined > real totalCount / 2)"

text \<open>One iteration of the loop of \<open>applyMultiLineToggle\<close>, on line \<open>i\<close>.\<close>

definition applyToLine ::
  "Editor \<Rightarrow> EditorPosition \<Rightarrow> EditorPosition \<Rightarrow> bool \<Rightarrow> nat \<Rightarrow> Editor option" where
  "applyToLine editor selFrom selTo remove i =
     (case getLine editor i of
        None \<Rightarrow> None
      | Some lineText \<Rightarrow>
          (let sl = getLineSlice lineText i selFrom selTo
           in if range_from sl \<ge> range_to sl then Some editor
              else
                (let state = getUnderlineState lineText (range_from sl) (range_to sl);
                     content = str_slice lineText (contentFrom state) (contentTo state)
                 in if remove \<and> isUnderlined state then
                      replaceRange editor content
                        \<lparr>line = i, ch = markFrom state\<rparr> \<lparr>line = i, ch = markTo state\<rparr>
                    else if \<not> remove \<and> \<not> isUnderlined state then
                      replaceRange editor ([underscore] @ content @ [underscore])
                        \<lparr>line = i, ch = range_from sl\<rparr> \<lparr>line = i, ch = range_to sl\<rparr>
                    else Some editor)))"

text \<open>
  \<open>for (let i = selTo.line; i >= selFrom.line; i--)\<close>: the counter is an integer, since
  it leaves the loop at \<open>-1\<close> when the selection starts on line 0.
\<close>

function applyLoop ::
  "Editor \<Rightarrow> EditorPosition \<Rightarrow> EditorPosition \<Rightarrow> bool \<Rightarrow> int \<Rightarrow> Editor option" where
  "applyLoop editor selFrom selTo remove i =
     (if i \<ge> int (line selFrom) then
        (case applyToLine editor selFrom selTo remove (nat i) of
           None \<Rightarrow> None
         | Some editor' \<Rightarrow> applyLoop editor' selFrom selTo remove (i - 1))
      else Some editor)"
  by pat_completeness auto
termination
  by (relation "measure (\<lambda>(editor, selFrom, selTo, remove, i). nat (i + 1 - int (line selFrom)))")
     auto

declare applyLoop.simps [simp del]

definition applyMultiLineToggle ::
  "Editor \<Rightarrow> EditorPosition \<Rightarrow> EditorPosition \<Rightarrow> Editor option" where
  "applyMultiLineToggle editor selFrom selTo =
     (case countUnderlinedLines editor selFrom selTo of
        None \<Rightarrow> None
      | Some (underlined, totalCount) \<Rightarrow>
          applyLoop editor selFrom selTo (shouldRemove underlined totalCount) (int (line selTo)))"

section \<open>The command\<close>

definition toggleUnderlineCommand :: "Editor \<Rightarrow> Editor option" where
  "toggleUnderlineCommand editor =
     (let p = cursorFrom editor;
          q = cursorTo editor;
          hasSelection = (line p \<noteq> line q \<or> ch p \<noteq> ch q)
      in if \<not> hasSelection then
           (case getLine editor (line p) of
              None \<Rightarrow> None
            | Some lineText \<Rightarrow>
                (let word = detectWordRange lineText (ch p)
                 in if range_from word = range_to word then
                      (if ch p > 0 \<and> ch p < length lineText
                          \<and> isUnderscore (charAt lineText (int (ch p) - 1))
                          \<and> isUnderscore (charAt lineText (int (ch p)))
                       then replaceRange editor []
                              \<lparr>line = line p, ch = ch p - 1\<rparr> \<lparr>line = line p, ch = ch p + 1\<rparr>
                       else
                         (case replaceSelection editor [underscore, underscore] of
                            None \<Rightarrow> None
                          | Some editor' \<Rightarrow>
                              Some (setCursor editor' \<lparr>line = line p, ch = ch p + 1\<rparr>)))
                    else applySingleLineToggle editor (line p) (range_from word) (range_to word)))
         else if line p = line q then applySingleLineToggle editor (line p) (ch p) (ch q)
         else applyMultiLineToggle editor p q)"

section \<open>Scanning a line for decorations\<close>

text \<open>
  \<open>const UNDERSCORE_RE = /_([^_\n]+?)_/g\<close>. The class \<open>[^_\n]\<close> is negated. The lazy
  quantifier, once it has consumed one unit of the class, first tries what follows it in
  the pattern (the closing underscore) and consumes one more unit only when that fails;
  \<open>lazyContent s j\<close> is the end of the match found from position \<open>j\<close> on, if any.
\<close>

definition contentClass :: "unit16 \<Rightarrow> bool" where
  "contentClass c = classMatches True [ClassChar 0x5F, ClassChar 0x0A] c"

function lazyContent :: "jsstring \<Rightarrow> nat \<Rightarrow> nat option" where
  "lazyContent s j =
     (if j < length s \<and> s ! j = underscore then Some (Suc j)
      else if j < length s \<and> contentClass (s ! j) then lazyContent s (Suc j)
      else None)"
  by pat_completeness auto
termination
  by (relation "measure (\<lambda>(s, j). length s - j)") auto

declare lazyContent.simps [simp del]

text \<open>The end of the match of the pattern that starts at index \<open>i\<close>, if there is one.\<close>

definition matchAt :: "jsstring \<Rightarrow> nat \<Rightarrow> nat option" where
  "matchAt s i =
     (if i < length s \<and> s ! i = underscore \<and> Suc i < length s \<and> contentClass (s ! Suc i)
      then lazyContent s (Suc (Suc i)) else None)"

text \<open>
  \<open>UNDERSCORE_RE.exec(s)\<close> with the flag \<open>g\<close>: the search starts at \<open>lastIndex\<close> and
  tries each index in turn; a match returns its index and the new \<open>lastIndex\<close>, its end.
\<close>

function UNDERSCORE_RE_exec :: "jsstring \<Rightarrow> nat \<Rightarrow> (nat \<times> nat) option" where
  "UNDERSCORE_RE_exec s lastIndex =
     (if lastIndex > length s then None
      else
        (case matchAt s lastIndex of
           Some e \<Rightarrow> Some (lastIndex, e)
         | None \<Rightarrow> UNDERSCORE_RE_exec s (Suc lastIndex)))"
  by pat_completeness auto
termination
  by (relation "measure (\<lambda>(s, lastIndex). Suc (length s) - lastIndex)") auto

declare UNDERSCORE_RE_exec.simps [simp del]

text \<open>
  The loop of \<open>buildDecorations\<close> over the matches in one sanitized line, whose first
  character is at offset \<open>lineFrom\<close> of the document:
  \<open>while ((match = UNDERSCORE_RE.exec(sanitizedLineText)) !== null)\<close>. Each match adds
  three ranges to the builder: the opening mark, the content and the closing mark.
\<close>

datatype Decoration = underscoreMarkDecoration | underscoreContentDecoration

function scanLine :: "nat \<Rightarrow> jsstring \<Rightarrow> nat \<Rightarrow> (nat \<times> nat \<times> Decoration) list" where
  "scanLine lineFrom s lastIndex =
     (case UNDERSCORE_RE_exec s lastIndex of
        None \<Rightarrow> []
      | Some (index, lastIndex') \<Rightarrow>
          (let pFrom = lineFrom + index;
               pTo = pFrom + (lastIndex' - index)
           in [(pFrom, pFrom + 1, underscoreMarkDecoration),
               (pFrom + 1, pTo - 1, underscoreContentDecoration),
               (pTo - 1, pTo, underscoreMarkDecoration)]
              @ scanLine lineFrom s lastIndex'))"
  by pat_completeness auto
termination
proof (relation "measure (\<lambda>(lineFrom, s, lastIndex). Suc (length s) - lastIndex)")
  show "wf (measure (\<lambda>(lineFrom, s, lastIndex). Suc (length s) - lastIndex))"
    by (rule wf_measure)
next
  fix lineFrom :: nat and s :: jsstring and lastIndex x2 index lastIndex'
  assume ex: "UNDERSCORE_RE_exec s lastIndex = Some x2" and x2: "(index, lastIndex') = x2"
  have lazy: "j < e \<and> e \<le> length t" if "lazyContent t j = Some e" for t j e
    using that
  proof (induction t j rule: lazyContent.induct)
    case (1 t j)
    show ?case
    proof (cases "j < length t \<and> t ! j = underscore")
      case True
      with "1.prems" have "e = Suc j" by (subst (asm) lazyContent.simps) simp
      with True show ?thesis by simp
    next
      case False
      show ?thesis
      proof (cases "j < length t \<and> contentClass (t ! j)")
        case True
        with False "1.prems" have "lazyContent t (Suc j) = Some e"
          by (subst (asm) lazyContent.simps) simp
        with "1.IH" [OF False True] show ?thesis by simp
      next
        case no: False
        with False "1.prems" show ?thesis
          by (subst (asm) lazyContent.simps) (auto split: if_splits)
      qed
    qed
  qed
  have "i \<le> m \<and> m < e \<and> e \<le> length t" if "UNDERSCORE_RE_exec t i = Some (m, e)" for t i m e
    using that
  proof (induction t i rule: UNDERSCORE_RE_exec.induct)
    case (1 t i)
    show ?case
    proof (cases "matchAt t i")
      case None
      with "1.prems" have le: "\<not> length t < i" and "UNDERSCORE_RE_exec t (Suc i) = Some (m, e)"
        by (subst (asm) UNDERSCORE_RE_exec.simps, simp split: if_splits)+
      with "1.IH" [OF le None] show ?thesis by simp
    next
      case (Some e')
      with "1.prems" have "m = i" "e = e'"
        by (subst (asm) UNDERSCORE_RE_exec.simps, simp split: if_splits)+
      moreover from Some have "Suc (Suc i) < e' \<and> e' \<le> length t"
        by (auto simp add: matchAt_def split: if_splits dest: lazy)
      ultimately show ?thesis by simp
    qed
  qed
  with ex x2 have "lastIndex < lastIndex' \<and> lastIndex' \<le> length s" by force
  then show "((lineFrom, s, lastIndex'), (lineFrom, s, lastIndex))
               \<in> measure (\<lambda>(lineFrom, s, lastIndex). Suc (length s) - lastIndex)"
    by auto
qed

declare scanLine.simps [simp del]

section \<open>The majority vote, as the specification words it\<close>

text \<open>
  The vocabulary of the specification for the multi-line toggle, to be compared with the
  loops above: the selected slice of a line, the lines of the selection whose slice is
  not empty, those among them whose slice is classified as underlined, a strict majority
  (more than half), and the two edits of a line.
\<close>

definition selectedSlice :: "Editor \<Rightarrow> EditorPosition \<Rightarrow> EditorPosition \<Rightarrow> nat \<Rightarrow> ColumnRange" where
  "selectedSlice editor selFrom selTo i = getLineSlice (lines editor ! i) i selFrom selTo"

definition sliceNonEmpty :: "Editor \<Rightarrow> EditorPosition \<Rightarrow> EditorPosition \<Rightarrow> nat \<Rightarrow> bool" where
  "sliceNonEmpty editor selFrom selTo i =
     (range_from (selectedSlice editor selFrom selTo i)
        < range_to (selectedSlice editor selFrom selTo i))"

definition sliceState :: "Editor \<Rightarrow> EditorPosition \<Rightarrow> EditorPosition \<Rightarrow> nat \<Rightarrow> UnderlineState" where
  "sliceState editor selFrom selTo i =
     getUnderlineState (lines editor ! i)
       (range_from (selectedSlice editor selFrom selTo i))
       (range_to (selectedSlice editor selFrom selTo i))"

definition nonEmptySlices :: "Editor \<Rightarrow> EditorPosition \<Rightarrow> EditorPosition \<Rightarrow> nat list" where
  "nonEmptySlices editor selFrom selTo =
     filter (sliceNonEmpty editor selFrom selTo) [line selFrom ..< Suc (line selTo)]"

definition underlinedSlices :: "Editor \<Rightarrow> EditorPosition \<Rightarrow> EditorPosition \<Rightarrow> nat list" where
  "underlinedSlices editor selFrom selTo =
     filter (\<lambda>i. isUnderlined (sliceState editor selFrom selTo i))
       (nonEmptySlices editor selFrom selTo)"

definition strictMajority :: "nat \<Rightarrow> nat \<Rightarrow> bool" where
  "strictMajority k n = (n < 2 * k)"

definition strippedLine :: "Editor \<Rightarrow> EditorPosition \<Rightarrow> EditorPosition \<Rightarrow> nat \<Rightarrow> jsstring" where
  "strippedLine editor selFrom selTo i =
     take (markFrom (sliceState editor selFrom selTo i)) (lines editor ! i)
     @ str_slice (lines editor ! i) (contentFrom (sliceState editor selFrom selTo i))
         (contentTo (sliceState editor selFrom selTo i))
     @ drop (markTo (sliceState editor selFrom selTo i)) (lines editor ! i)"

definition wrappedLine :: "Editor \<Rightarrow> EditorPosition \<Rightarrow> EditorPosition \<Rightarrow> nat \<Rightarrow> jsstring" where
  "wrappedLine editor selFrom selTo i =
     take (range_from (selectedSlice editor selFrom selTo i)) (lines editor ! i)
     @ [underscore]
     @ str_slice (lines editor ! i) (range_from (selectedSlice editor selFrom selTo i))
         (range_to (selectedSlice editor selFrom selTo i))
     @ [underscore]
     @ drop (range_to (selectedSlice editor selFrom selTo i)) (lines editor ! i)"

text \<open>The text of line \<open>i\<close> after the multi-line toggle has decided to remove, or not.\<close>

definition votedLine :: "Editor \<Rightarrow> EditorPosition \<Rightarrow> EditorPosition \<Rightarrow> bool \<Rightarrow> nat \<Rightarrow> jsstring" where
  "votedLine editor selFrom selTo remove i =
     (if \<not> sliceNonEmpty editor selFrom selTo i then lines editor ! i
      else if remove \<and> isUnderlined (sliceState editor selFrom selTo i)
      then strippedLine editor selFrom selTo i
      else if \<not> remove \<and> \<not> isUnderlined (sliceState editor selFrom selTo i)
      then wrappedLine editor selFrom selTo i
      else lines editor ! i)"

section \<open>Properties of the word detector\<close>

lemma charAt_nat: "charAt s (int i) = (if i < length s then Some (s ! i) else None)"
  by (simp add: charAt_def)

lemma charAt_outside: "i < 0 \<or> int (length s) \<le> i \<Longrightarrow> charAt s i = None"
  by (auto simp add: charAt_def)

lemma not_isUnderscore_None: "\<not> isUnderscore None"
  by (simp add: isUnderscore_def)

lemma STOP_CHARS_test_None: "\<not> STOP_CHARS_test None"
  by code_simp

lemma STOP_CHARS_test_Some: "STOP_CHARS_test (Some c) = classMatches False STOP_CHARS c"
  by (simp add: STOP_CHARS_test_def toString_def)

lemma STOP_CHARS_members:
  "classMatches False STOP_CHARS c \<longleftrightarrow> isWhiteSpace c \<or> c \<in> set (js ''_*~`[]()|#'')"
  by (simp add: classMatches_def STOP_CHARS_def js_def)

lemma STOP_CHARS_test_charAt:
  "STOP_CHARS_test (charAt s (int i)) \<longleftrightarrow> i < length s \<and> classMatches False STOP_CHARS (s ! i)"
  by (simp add: charAt_nat STOP_CHARS_test_None STOP_CHARS_test_Some)

lemma expandLeft_le: "expandLeft s n \<le> n"
  by (induction n) auto

lemma expandLeft_nonstop:
  "expandLeft s n \<le> i \<Longrightarrow> i < n \<Longrightarrow> \<not> STOP_CHARS_test (charAt s (int i))"
proof (induction n)
  case 0
  then show ?case by simp
next
  case (Suc n)
  show ?case
  proof (cases "STOP_CHARS_test (charAt s (int n))")
    case True
    with Suc.prems show ?thesis by simp
  next
    case False
    show ?thesis
    proof (cases "i = n")
      case True
      with False show ?thesis by simp
    next
      case ne: False
      with Suc.prems False have "expandLeft s n \<le> i" "i < n" by simp_all
      then show ?thesis by (rule Suc.IH)
    qed
  qed
qed

lemma expandLeft_stop:
  "expandLeft s n = 0 \<or> STOP_CHARS_test (charAt s (int (expandLeft s n) - 1))"
  by (induction n) auto

lemma expandRight_ge: "r \<le> expandRight s r"
proof (induction s r rule: expandRight.induct)
  case (1 s r)
  then show ?case by (subst expandRight.simps) auto
qed

lemma expandRight_le: "expandRight s r \<le> max r (length s)"
proof (induction s r rule: expandRight.induct)
  case (1 s r)
  then show ?case by (subst expandRight.simps) auto
qed

lemma expandRight_nonstop:
  "r \<le> i \<Longrightarrow> i < expandRight s r \<Longrightarrow> \<not> STOP_CHARS_test (charAt s (int i))"
proof (induction s r rule: expandRight.induct)
  case (1 s r)
  show ?case
  proof (cases "r < length s \<and> \<not> STOP_CHARS_test (charAt s (int r))")
    case True
    then have eq: "expandRight s r = expandRight s (Suc r)"
      by (subst expandRight.simps) simp
    show ?thesis
    proof (cases "i = r")
      case True
      with \<open>r < length s \<and> \<not> STOP_CHARS_test (charAt s (int r))\<close> show ?thesis by simp
    next
      case False
      with "1.prems" eq have "Suc r \<le> i" "i < expandRight s (Suc r)" by simp_all
      with "1.IH" True show ?thesis by blast
    qed
  next
    case False
    then have "expandRight s r = r" by (subst expandRight.simps) auto
    with "1.prems" show ?thesis by simp
  qed
qed

lemma expandRight_stop:
  "length s \<le> expandRight s r \<or> STOP_CHARS_test (charAt s (int (expandRight s r)))"
proof (induction s r rule: expandRight.induct)
  case (1 s r)
  show ?case
  proof (cases "r < length s \<and> \<not> STOP_CHARS_test (charAt s (int r))")
    case True
    then have "expandRight s r = expandRight s (Suc r)"
      by (subst expandRight.simps) simp
    with "1.IH" True show ?thesis by simp
  next
    case False
    then have "expandRight s r = r" by (subst expandRight.simps) auto
    with False show ?thesis by auto
  qed
qed

lemma expandRight_outside: "length s \<le> r \<Longrightarrow> expandRight s r = r"
  by (subst expandRight.simps) simp

lemma expandLeft_outside: "length s \<le> n \<Longrightarrow> expandLeft s n = expandLeft s (length s)"
proof (induction n)
  case 0
  then show ?case by simp
next
  case (Suc n)
  show ?case
  proof (cases "length s \<le> n")
    case True
    then have "\<not> STOP_CHARS_test (charAt s (int n))"
      by (simp add: charAt_nat STOP_CHARS_test_None)
    with Suc.IH True show ?thesis by simp
  next
    case False
    with Suc.prems have "Suc n = length s" by simp
    then show ?thesis by simp
  qed
qed

lemma expandRight_total: "expandRight_dom (s, r)"
proof (induction "length s - r" arbitrary: r)
  case 0
  show ?case
  proof (rule expandRight.domintros)
    assume "r < length s"
    with 0 show "expandRight_dom (s, Suc r)" by simp
  qed
next
  case (Suc k)
  show ?case
  proof (rule expandRight.domintros)
    assume "r < length s"
    with Suc.hyps(2) have "k = length s - Suc r" by simp
    then show "expandRight_dom (s, Suc r)" by (rule Suc.hyps(1))
  qed
qed

lemma expandLeft_total: "expandLeft_dom (s, n)"
proof (induction n)
  case 0
  show ?case by (rule expandLeft.domintros)
next
  case (Suc n)
  show ?case
  proof (rule expandLeft.domintros)
    show "expandLeft_dom (s, n)" by (rule Suc.IH)
  qed
qed

text \<open>
  C8. The stop characters are the white space of \<open>\s\<close> and the ten characters
  \<open>_ * ~ ` [ ] ( ) | #\<close>. On a stop character the detector returns the empty range at
  the column. Otherwise the range it returns contains the column, holds no stop
  character, cannot be extended to the left (it starts at column 0 or just after a stop
  character) nor to the right (it ends at the end of the line, or at the column when that
  lies beyond the line, or just before a stop character). In \<open>hello world\<close> the word at
  column 8 is \<open>[6, 11)\<close>.
\<close>

theorem detectWordRange_word_boundaries:
  "(\<forall>v. STOP_CHARS_test v =
          (\<exists>c. v = Some c \<and> (isWhiteSpace c \<or> c \<in> set (js ''_*~`[]()|#''))))
   \<and> (STOP_CHARS_test (charAt lineText (int col)) \<longrightarrow>
        detectWordRange lineText col = \<lparr>range_from = col, range_to = col\<rparr>)
   \<and> (\<not> STOP_CHARS_test (charAt lineText (int col)) \<longrightarrow>
        range_from (detectWordRange lineText col) \<le> col
        \<and> col \<le> range_to (detectWordRange lineText col)
        \<and> range_to (detectWordRange lineText col) \<le> max col (length lineText)
        \<and> (\<forall>i. range_from (detectWordRange lineText col) \<le> i
                \<and> i < range_to (detectWordRange lineText col) \<longrightarrow>
                \<not> STOP_CHARS_test (charAt lineText (int i)))
        \<and> (range_from (detectWordRange lineText col) = 0
            \<or> STOP_CHARS_test
                 (charAt lineText (int (range_from (detectWordRange lineText col)) - 1)))
        \<and> (length lineText \<le> range_to (detectWordRange lineText col)
            \<or> STOP_CHARS_test
                 (charAt lineText (int (range_to (detectWordRange lineText col))))))
   \<and> detectWordRange (js ''hello world'') 8 = \<lparr>range_from = 6, range_to = 11\<rparr>"
proof (intro conjI allI impI)
  fix v
  show "STOP_CHARS_test v =
          (\<exists>c. v = Some c \<and> (isWhiteSpace c \<or> c \<in> set (js ''_*~`[]()|#'')))"
    by (cases v) (simp_all add: STOP_CHARS_test_None STOP_CHARS_test_Some STOP_CHARS_members)
next
  assume "STOP_CHARS_test (charAt lineText (int col))"
  then show "detectWordRange lineText col = \<lparr>range_from = col, range_to = col\<rparr>"
    by (simp add: detectWordRange_def STOP_CHARS_test_charAt)
next
  assume ns: "\<not> STOP_CHARS_test (charAt lineText (int col))"
  then have r: "detectWordRange lineText col =
      \<lparr>range_from = expandLeft lineText col, range_to = expandRight lineText col\<rparr>"
    by (simp add: detectWordRange_def)
  show "range_from (detectWordRange lineText col) \<le> col"
    by (simp add: r expandLeft_le)
  show "col \<le> range_to (detectWordRange lineText col)"
    by (simp add: r expandRight_ge)
  show "range_to (detectWordRange lineText col) \<le> max col (length lineText)"
    using expandRight_le [of lineText col] by (simp add: r)
  show "range_from (detectWordRange lineText col) = 0
        \<or> STOP_CHARS_test (charAt lineText (int (range_from (detectWordRange lineText col)) - 1))"
    using expandLeft_stop [of lineText col] by (simp add: r)
  show "length lineText \<le> range_to (detectWordRange lineText col)
        \<or> STOP_CHARS_test (charAt lineText (int (range_to (detectWordRange lineText col))))"
    using expandRight_stop [of lineText col] by (simp add: r)
  fix i
  assume "range_from (detectWordRange lineText col) \<le> i
          \<and> i < range_to (detectWordRange lineText col)"
  then have i: "expandLeft lineText col \<le> i" "i < expandRight lineText col"
    by (simp_all add: r)
  show "\<not> STOP_CHARS_test (charAt lineText (int i))"
  proof (cases "i < col")
    case True
    with i show ?thesis using expandLeft_nonstop [of lineText col i] by simp
  next
    case False
    with i show ?thesis using expandRight_nonstop [of col i lineText] by simp
  qed
next
  show "detectWordRange (js ''hello world'') 8 = \<lparr>range_from = 6, range_to = 11\<rparr>"
    by code_simp
qed

theorem detectWordRange_word_boundaries_witness:
  "detectWordRange (js ''hello world'') 5 = \<lparr>range_from = 5, range_to = 5\<rparr>
   \<and> range_from (detectWordRange (js ''a_bc d'') 3) \<le> 3
   \<and> 3 \<le> range_to (detectWordRange (js ''a_bc d'') 3)
   \<and> (range_from (detectWordRange (js ''a_bc d'') 3) = 0
       \<or> STOP_CHARS_test
            (charAt (js ''a_bc d'') (int (range_from (detectWordRange (js ''a_bc d'') 3)) - 1)))"
proof -
  have s: "STOP_CHARS_test (charAt (js ''hello world'') (int 5))" by code_simp
  have n: "\<not> STOP_CHARS_test (charAt (js ''a_bc d'') (int 3))" by code_simp
  show ?thesis
    using detectWordRange_word_boundaries [of "js ''hello world''" 5]
      detectWordRange_word_boundaries [of "js ''a_bc d''" 3] s n
    by blast
qed

section \<open>Properties of the classifier\<close>

lemma getUnderlineState_cases:
  "getUnderlineState lineText selFrom selTo =
     \<lparr>isUnderlined = True, markFrom = selFrom, markTo = selTo,
      contentFrom = selFrom + 1, contentTo = selTo - 1\<rparr> \<and> selFrom + 2 \<le> selTo
   \<or> getUnderlineState lineText selFrom selTo =
     \<lparr>isUnderlined = True, markFrom = selFrom - 1, markTo = selTo + 1,
      contentFrom = selFrom, contentTo = selTo\<rparr> \<and> 0 < selFrom \<and> selTo < length lineText
   \<or> getUnderlineState lineText selFrom selTo =
     \<lparr>isUnderlined = False, markFrom = selFrom, markTo = selTo,
      contentFrom = selFrom, contentTo = selTo\<rparr>"
  by (simp add: getUnderlineState_def)

lemma charAt_minus1:
  "charAt s (int n - 1) = (if 0 < n then charAt s (int (n - 1)) else None)"
proof (cases "0 < n")
  case True
  then have e: "int n - 1 = int (n - 1)" by linarith
  show ?thesis unfolding e using True by (simp only: if_True)
next
  case False
  then have "int n - 1 < 0" by linarith
  then have "charAt s (int n - 1) = None" by (simp add: charAt_def)
  with False show ?thesis by (simp only: if_False)
qed

lemma charAt_minus2:
  "charAt s (int n - 2) = (if 2 \<le> n then charAt s (int (n - 2)) else None)"
proof (cases "2 \<le> n")
  case True
  then have e: "int n - 2 = int (n - 2)" by linarith
  show ?thesis unfolding e using True by (simp only: if_True)
next
  case False
  then have "int n - 2 < 0" by linarith
  then have "charAt s (int n - 2) = None" by (simp add: charAt_def)
  with False show ?thesis by (simp only: if_False)
qed

lemma charAt_plus1: "charAt s (int n + 1) = charAt s (int (Suc n))"
proof -
  have e: "int n + 1 = int (Suc n)" by linarith
  show ?thesis unfolding e by (rule refl)
qed

lemma isUnderscore_charAt:
  "isUnderscore (charAt s (int i)) \<longleftrightarrow> i < length s \<and> s ! i = underscore"
  by (simp add: charAt_nat isUnderscore_def)

text \<open>The classifier with every index a natural number.\<close>

lemma getUnderlineState_nat:
  "getUnderlineState s f t =
     (if f + 2 \<le> t \<and> (f < length s \<and> s ! f = underscore)
         \<and> (t - 1 < length s \<and> s ! (t - 1) = underscore)
         \<and> \<not> (Suc f < length s \<and> s ! Suc f = underscore)
      then \<lparr>isUnderlined = True, markFrom = f, markTo = t,
            contentFrom = f + 1, contentTo = t - 1\<rparr>
      else if 0 < f \<and> t < length s
         \<and> (f - 1 < length s \<and> s ! (f - 1) = underscore) \<and> s ! t = underscore
         \<and> \<not> (2 \<le> f \<and> f - 2 < length s \<and> s ! (f - 2) = underscore)
         \<and> \<not> (Suc t < length s \<and> s ! Suc t = underscore)
      then \<lparr>isUnderlined = True, markFrom = f - 1, markTo = t + 1,
            contentFrom = f, contentTo = t\<rparr>
      else \<lparr>isUnderlined = False, markFrom = f, markTo = t,
            contentFrom = f, contentTo = t\<rparr>)"
proof -
  have a: "(2 \<le> int t - int f) = (f + 2 \<le> t)" by linarith
  have b: "isUnderscore (charAt s (int f - 2)) =
             (2 \<le> f \<and> f - 2 < length s \<and> s ! (f - 2) = underscore)"
    unfolding charAt_minus2
    by (cases "2 \<le> f") (simp_all only: if_True if_False isUnderscore_charAt
          not_isUnderscore_None simp_thms)
  have c: "isUnderscore (charAt s (int n - 1)) =
             (0 < n \<and> n - 1 < length s \<and> s ! (n - 1) = underscore)" for n
    unfolding charAt_minus1
    by (cases "0 < n") (simp_all only: if_True if_False isUnderscore_charAt
          not_isUnderscore_None simp_thms)
  have d: "isUnderscore (charAt s (int n + 1)) = (Suc n < length s \<and> s ! Suc n = underscore)" for n
    unfolding charAt_plus1 by (simp only: isUnderscore_charAt)
  show ?thesis
    unfolding getUnderlineState_def a b c d isUnderscore_charAt
    by (rule if_cong [OF _ refl if_cong [OF _ refl refl]]) auto
qed

lemma inner_marks_range_underlined:
  assumes "x \<noteq> []" and "hd x \<noteq> underscore"
  shows "isUnderlined
           (getUnderlineState (pre @ [underscore, underscore] @ x @ [underscore, underscore] @ post)
              (length pre + 1) (length pre + length x + 3))"
proof -
  obtain c cs where x: "x = c # cs" using assms(1) by (cases x) auto
  with assms(2) have c: "c \<noteq> underscore" by simp
  show ?thesis
    using c by (simp add: x getUnderlineState_nat nth_append)
qed

lemma content_range_not_underlined:
  assumes "underscore \<notin> set x"
  shows "\<not> isUnderlined
           (getUnderlineState (pre @ [underscore, underscore] @ x @ [underscore, underscore] @ post)
              (length pre + 2) (length pre + 2 + length x))"
proof (cases x)
  case Nil
  then show ?thesis
    by (simp add: getUnderlineState_nat nth_append)
next
  case (Cons c cs)
  with assms have "c \<noteq> underscore" by auto
  then show ?thesis
    by (simp add: Cons getUnderlineState_nat nth_append)
qed

text \<open>
  C10. Whatever the line and the range, the marks of an underlined result flank its
  content by exactly one column on each side (\<open>markFrom = contentFrom - 1\<close>,
  \<open>markTo = contentTo + 1\<close>), and a result that is not underlined has marks and content
  both equal to the range given.
\<close>

theorem getUnderlineState_marks_flank_content:
  "(let st = getUnderlineState lineText selFrom selTo
    in (isUnderlined st \<longrightarrow>
          markFrom st = contentFrom st - 1 \<and> markFrom st + 1 = contentFrom st
          \<and> markTo st = contentTo st + 1)
       \<and> (\<not> isUnderlined st \<longrightarrow>
          markFrom st = selFrom \<and> contentFrom st = selFrom
          \<and> markTo st = selTo \<and> contentTo st = selTo))"
  using getUnderlineState_cases [of lineText selFrom selTo]
  by (auto simp add: Let_def)

theorem getUnderlineState_marks_flank_content_witness:
  "(let st = getUnderlineState (js ''_hello_ world'') 1 6
    in isUnderlined st \<and> markFrom st = 0 \<and> contentFrom st = 1 \<and> markTo st = 7 \<and> contentTo st = 6)
   \<and> (let st = getUnderlineState (js ''_hello_ world'') 8 13
    in \<not> isUnderlined st \<and> markFrom st = 8 \<and> contentFrom st = 8
       \<and> markTo st = 13 \<and> contentTo st = 13)"
proof -
  have u: "isUnderlined (getUnderlineState (js ''_hello_ world'') 1 6)"
    and c: "contentFrom (getUnderlineState (js ''_hello_ world'') 1 6) = 1"
           "contentTo (getUnderlineState (js ''_hello_ world'') 1 6) = 6"
    and n: "\<not> isUnderlined (getUnderlineState (js ''_hello_ world'') 8 13)"
    by code_simp+
  show ?thesis
    using getUnderlineState_marks_flank_content [of "js ''_hello_ world''" 1 6]
      getUnderlineState_marks_flank_content [of "js ''_hello_ world''" 8 13] u c n
    by (simp add: Let_def)
qed

text \<open>
  C4, as amended. Under the conditions of the marks-excluded case, a range to which the
  marks-included case, checked first, does not apply is classified as underlined with
  the marks \<open>[selFrom - 1, selTo + 1)\<close> and the content \<open>[selFrom, selTo)\<close>. The
  scenario of the specification is such a range.
\<close>

theorem marks_excluded_when_marks_included_fails:
  assumes "0 < selFrom" and "selTo < length lineText"
    and "isUnderscore (charAt lineText (int selFrom - 1))"
    and "isUnderscore (charAt lineText (int selTo))"
    and "\<not> isUnderscore (charAt lineText (int selFrom - 2))"
    and "\<not> isUnderscore (charAt lineText (int selTo + 1))"
    and "\<not> (int selTo - int selFrom \<ge> 2
           \<and> isUnderscore (charAt lineText (int selFrom))
           \<and> isUnderscore (charAt lineText (int selTo - 1))
           \<and> \<not> isUnderscore (charAt lineText (int selFrom + 1)))"
  shows "getUnderlineState lineText selFrom selTo =
           \<lparr>isUnderlined = True, markFrom = selFrom - 1, markTo = selTo + 1,
            contentFrom = selFrom, contentTo = selTo\<rparr>
    \<and> getUnderlineState (js ''_hello_'') 1 6 =
           \<lparr>isUnderlined = True, markFrom = 0, markTo = 7, contentFrom = 1, contentTo = 6\<rparr>"
proof -
  have scenario: "getUnderlineState (js ''_hello_'') 1 6 =
           \<lparr>isUnderlined = True, markFrom = 0, markTo = 7, contentFrom = 1, contentTo = 6\<rparr>"
    by code_simp
  have "getUnderlineState lineText selFrom selTo =
           \<lparr>isUnderlined = True, markFrom = selFrom - 1, markTo = selTo + 1,
            contentFrom = selFrom, contentTo = selTo\<rparr>"
    unfolding getUnderlineState_def using assms by (simp only: if_False if_True simp_thms)
  with scenario show ?thesis by (rule conjI [rotated])
qed

theorem marks_excluded_when_marks_included_fails_witness:
  "getUnderlineState (js ''say _hello_ now'') 5 10 =
       \<lparr>isUnderlined = True, markFrom = 4, markTo = 11, contentFrom = 5, contentTo = 10\<rparr>"
proof -
  have h1: "0 < (5::nat)" by simp
  have h2: "10 < length (js ''say _hello_ now'')" by (simp add: js_def)
  have h3: "isUnderscore (charAt (js ''say _hello_ now'') (int 5 - 1))" by code_simp
  have h4: "isUnderscore (charAt (js ''say _hello_ now'') (int 10))" by code_simp
  have h5: "\<not> isUnderscore (charAt (js ''say _hello_ now'') (int 5 - 2))" by code_simp
  have h6: "\<not> isUnderscore (charAt (js ''say _hello_ now'') (int 10 + 1))" by code_simp
  have h7: "\<not> (int 10 - int 5 \<ge> 2
           \<and> isUnderscore (charAt (js ''say _hello_ now'') (int 5))
           \<and> isUnderscore (charAt (js ''say _hello_ now'') (int 10 - 1))
           \<and> \<not> isUnderscore (charAt (js ''say _hello_ now'') (int 5 + 1)))"
    by code_simp
  show ?thesis
    using marks_excluded_when_marks_included_fails [OF h1 h2 h3 h4 h5 h6 h7] by simp
qed

text \<open>
  C4, as stated, fails where both cases apply, which is on the inner marks of a pair of
  double underscores: in \<open>a__b__c\<close> the range \<open>[2, 5)\<close> meets every condition of the
  marks-excluded case, and the result is that of the marks-included case, with marks
  \<open>[2, 5)\<close> and content \<open>[3, 4)\<close>.
\<close>

theorem marks_excluded_counterexample:
  "0 < (2::nat) \<and> 5 < length (js ''a__b__c'')
   \<and> isUnderscore (charAt (js ''a__b__c'') (int 2 - 1))
   \<and> isUnderscore (charAt (js ''a__b__c'') (int 5))
   \<and> \<not> isUnderscore (charAt (js ''a__b__c'') (int 2 - 2))
   \<and> \<not> isUnderscore (charAt (js ''a__b__c'') (int 5 + 1))
   \<and> getUnderlineState (js ''a__b__c'') 2 5 =
       \<lparr>isUnderlined = True, markFrom = 2, markTo = 5, contentFrom = 3, contentTo = 4\<rparr>
   \<and> getUnderlineState (js ''a__b__c'') 2 5 \<noteq>
       \<lparr>isUnderlined = True, markFrom = 2 - 1, markTo = 5 + 1, contentFrom = 2, contentTo = 5\<rparr>"
  by code_simp

text \<open>
  C2. In \<open>__x__\<close> the range \<open>[1, 4)\<close>, which takes in the two inner marks, is classified
  as underlined: the guard of the marks-included case reads \<open>line[selFrom + 1]\<close> only.
\<close>

theorem inner_marks_of_double_underscore_underlined:
  "getUnderlineState (js ''__x__'') 1 4 =
     \<lparr>isUnderlined = True, markFrom = 1, markTo = 4, contentFrom = 2, contentTo = 3\<rparr>"
  by code_simp

text \<open>
  C9. Both loops of the word detector terminate on every line and column; a read outside
  the line is \<open>undefined\<close>, which is neither an underscore nor a stop character; and on
  ranges and columns at or beyond the ends of the line both functions return: a range
  that starts at column 0 or ends at the line's end can only be classified by the
  marks-included case, a range that ends beyond the line is not underlined, and a column
  at or beyond the end of the line is the right end of the word detected there.
\<close>

theorem classifier_and_detector_total:
  "expandLeft_dom (lineText, col) \<and> expandRight_dom (lineText, col)
   \<and> (\<forall>i. i < 0 \<or> int (length lineText) \<le> i \<longrightarrow>
          charAt lineText i = None
          \<and> \<not> isUnderscore (charAt lineText i)
          \<and> \<not> STOP_CHARS_test (charAt lineText i))
   \<and> (selFrom = 0 \<or> length lineText \<le> selTo \<longrightarrow>
        getUnderlineState lineText selFrom selTo =
          (if selFrom + 2 \<le> selTo
              \<and> isUnderscore (charAt lineText (int selFrom))
              \<and> isUnderscore (charAt lineText (int selTo - 1))
              \<and> \<not> isUnderscore (charAt lineText (int selFrom + 1))
           then \<lparr>isUnderlined = True, markFrom = selFrom, markTo = selTo,
                 contentFrom = selFrom + 1, contentTo = selTo - 1\<rparr>
           else \<lparr>isUnderlined = False, markFrom = selFrom, markTo = selTo,
                 contentFrom = selFrom, contentTo = selTo\<rparr>))
   \<and> (length lineText < selTo \<longrightarrow>
        getUnderlineState lineText selFrom selTo =
          \<lparr>isUnderlined = False, markFrom = selFrom, markTo = selTo,
           contentFrom = selFrom, contentTo = selTo\<rparr>)
   \<and> range_from (detectWordRange lineText 0) = 0
   \<and> (length lineText \<le> col \<longrightarrow>
        detectWordRange lineText col =
          \<lparr>range_from = expandLeft lineText (length lineText), range_to = col\<rparr>)"
proof (intro conjI allI impI)
  show "expandLeft_dom (lineText, col)" by (rule expandLeft_total)
  show "expandRight_dom (lineText, col)" by (rule expandRight_total)
next
  fix i :: int
  assume out: "i < 0 \<or> int (length lineText) \<le> i"
  then show none: "charAt lineText i = None" by (rule charAt_outside)
  show "\<not> isUnderscore (charAt lineText i)"
    by (simp add: none not_isUnderscore_None)
  show "\<not> STOP_CHARS_test (charAt lineText i)"
    by (simp add: none STOP_CHARS_test_None)
next
  assume "selFrom = 0 \<or> length lineText \<le> selTo"
  then show "getUnderlineState lineText selFrom selTo =
          (if selFrom + 2 \<le> selTo
              \<and> isUnderscore (charAt lineText (int selFrom))
              \<and> isUnderscore (charAt lineText (int selTo - 1))
              \<and> \<not> isUnderscore (charAt lineText (int selFrom + 1))
           then \<lparr>isUnderlined = True, markFrom = selFrom, markTo = selTo,
                 contentFrom = selFrom + 1, contentTo = selTo - 1\<rparr>
           else \<lparr>isUnderlined = False, markFrom = selFrom, markTo = selTo,
                 contentFrom = selFrom, contentTo = selTo\<rparr>)"
  proof -
    assume "selFrom = 0 \<or> length lineText \<le> selTo"
    then have n: "\<not> (0 < selFrom \<and> selTo < length lineText)" by auto
    have a: "(2 \<le> int selTo - int selFrom) = (selFrom + 2 \<le> selTo)" by linarith
    show ?thesis unfolding getUnderlineState_def a using n by (cases "0 < selFrom") simp_all
  qed
next
  assume "length lineText < selTo"
  then have "\<not> selTo - 1 < length lineText" and "\<not> selTo < length lineText" by linarith+
  then show "getUnderlineState lineText selFrom selTo =
          \<lparr>isUnderlined = False, markFrom = selFrom, markTo = selTo,
           contentFrom = selFrom, contentTo = selTo\<rparr>"
    by (simp add: getUnderlineState_nat)
next
  show "range_from (detectWordRange lineText 0) = 0"
    by (simp add: detectWordRange_def)
next
  assume out: "length lineText \<le> col"
  then show "detectWordRange lineText col =
          \<lparr>range_from = expandLeft lineText (length lineText), range_to = col\<rparr>"
    using expandLeft_outside [of lineText col]
    by (simp add: detectWordRange_def expandRight_outside)
qed

theorem classifier_and_detector_total_witness:
  "charAt (js ''_hi_'') 4 = None
   \<and> getUnderlineState (js ''_hi_'') 0 4 =
     \<lparr>isUnderlined = True, markFrom = 0, markTo = 4, contentFrom = 1, contentTo = 3\<rparr>
   \<and> getUnderlineState (js ''_hi_'') 1 9 =
     \<lparr>isUnderlined = False, markFrom = 1, markTo = 9, contentFrom = 1, contentTo = 9\<rparr>
   \<and> detectWordRange (js ''hi'') 5 = \<lparr>range_from = 0, range_to = 5\<rparr>"
proof -
  note t = classifier_and_detector_total [of "js ''_hi_''" 5 0 4]
  note u = classifier_and_detector_total [of "js ''_hi_''" 5 1 9]
  note v = classifier_and_detector_total [of "js ''hi''" 5 0 0]
  have len: "length (js ''_hi_'') = 4" "length (js ''hi'') = 2" by (simp_all add: js_def)
  have "(4::int) < 0 \<or> int (length (js ''_hi_'')) \<le> 4" by (simp add: len)
  with t have c1: "charAt (js ''_hi_'') 4 = None" by blast
  have "(0::nat) = 0 \<or> length (js ''_hi_'') \<le> 4" by simp
  with t have "getUnderlineState (js ''_hi_'') 0 4 =
          (if (0::nat) + 2 \<le> 4
              \<and> isUnderscore (charAt (js ''_hi_'') (int 0))
              \<and> isUnderscore (charAt (js ''_hi_'') (int 4 - 1))
              \<and> \<not> isUnderscore (charAt (js ''_hi_'') (int 0 + 1))
           then \<lparr>isUnderlined = True, markFrom = 0, markTo = 4,
                 contentFrom = 0 + 1, contentTo = 4 - 1\<rparr>
           else \<lparr>isUnderlined = False, markFrom = 0, markTo = 4,
                 contentFrom = 0, contentTo = 4\<rparr>)"
    by blast
  moreover have "(0::nat) + 2 \<le> 4
              \<and> isUnderscore (charAt (js ''_hi_'') (int 0))
              \<and> isUnderscore (charAt (js ''_hi_'') (int 4 - 1))
              \<and> \<not> isUnderscore (charAt (js ''_hi_'') (int 0 + 1))"
    by code_simp
  ultimately have c2: "getUnderlineState (js ''_hi_'') 0 4 =
     \<lparr>isUnderlined = True, markFrom = 0, markTo = 4, contentFrom = 1, contentTo = 3\<rparr>"
    by simp
  have "length (js ''_hi_'') < 9" by (simp add: len)
  with u have c3: "getUnderlineState (js ''_hi_'') 1 9 =
     \<lparr>isUnderlined = False, markFrom = 1, markTo = 9, contentFrom = 1, contentTo = 9\<rparr>"
    by blast
  have "length (js ''hi'') \<le> 5" by (simp add: len)
  with v have "detectWordRange (js ''hi'') 5 =
          \<lparr>range_from = expandLeft (js ''hi'') (length (js ''hi'')), range_to = 5\<rparr>"
    by blast
  moreover have "expandLeft (js ''hi'') (length (js ''hi'')) = 0" by code_simp
  ultimately have c4: "detectWordRange (js ''hi'') 5 = \<lparr>range_from = 0, range_to = 5\<rparr>"
    by simp
  from c1 c2 c3 c4 show ?thesis by blast
qed

section \<open>Properties of the single-line toggle\<close>

lemma str_slice_0: "str_slice s 0 n = take n s"
  by (simp add: str_slice_def)

lemma length_str_slice: "length (str_slice s a b) = min (b - a) (length s - a)"
  by (simp add: str_slice_def)

lemma replaceRange_line:
  assumes "n < length (lines editor)"
  shows "replaceRange editor text \<lparr>line = n, ch = a\<rparr> \<lparr>line = n, ch = b\<rparr> =
           Some (editor\<lparr>lines := (lines editor)
                   [n := take a (lines editor ! n) @ text @ drop b (lines editor ! n)]\<rparr>)"
  using assms by (simp add: replaceRange_def getLine_def str_slice_0)

text \<open>The two branches of the single-line toggle, on a line of the buffer.\<close>

lemma applySingleLineToggle_wrap:
  assumes "n < length (lines editor)" and "selFrom \<noteq> selTo"
    and "\<not> isUnderlined (getUnderlineState (lines editor ! n) selFrom selTo)"
  shows "applySingleLineToggle editor n selFrom selTo =
           Some (editor\<lparr>lines := (lines editor)
                   [n := take selFrom (lines editor ! n) @ [underscore]
                         @ str_slice (lines editor ! n) selFrom selTo @ [underscore]
                         @ drop selTo (lines editor ! n)],
                  cursorFrom := \<lparr>line = n,
                     ch = selFrom + length (str_slice (lines editor ! n) selFrom selTo) + 2\<rparr>,
                  cursorTo := \<lparr>line = n,
                     ch = selFrom + length (str_slice (lines editor ! n) selFrom selTo) + 2\<rparr>\<rparr>)"
proof -
  from assms(3) getUnderlineState_cases [of "lines editor ! n" selFrom selTo]
  have st: "getUnderlineState (lines editor ! n) selFrom selTo =
     \<lparr>isUnderlined = False, markFrom = selFrom, markTo = selTo,
      contentFrom = selFrom, contentTo = selTo\<rparr>"
    by auto
  show ?thesis
    using assms(1,2)
    by (simp add: applySingleLineToggle_def getLine_def st replaceRange_line setSelection_def
        Let_def)
qed

lemma applySingleLineToggle_unwrap:
  assumes "n < length (lines editor)" and "selFrom \<noteq> selTo"
    and "getUnderlineState (lines editor ! n) selFrom selTo =
           \<lparr>isUnderlined = True, markFrom = mf, markTo = mt, contentFrom = cf, contentTo = ct\<rparr>"
  shows "applySingleLineToggle editor n selFrom selTo =
           Some (editor\<lparr>lines := (lines editor)
                   [n := take mf (lines editor ! n) @ str_slice (lines editor ! n) cf ct
                         @ drop mt (lines editor ! n)],
                  cursorFrom := \<lparr>line = n, ch = mf\<rparr>,
                  cursorTo := \<lparr>line = n,
                     ch = mf + length (str_slice (lines editor ! n) cf ct)\<rparr>\<rparr>)"
  using assms(1,2)
  by (simp add: applySingleLineToggle_def getLine_def assms(3) replaceRange_line
      setSelection_def Let_def)

text \<open>
  C7. On a non-empty range of a line that is classified as not underlined, the toggle
  replaces the range by underscore, content, underscore, and collapses the selection to
  one point: the column just after the closing mark, which is \<open>selTo + 2\<close> for a range
  that ends inside the line. On \<open>hello world\<close> with the range \<open>[6, 11)\<close> the line
  becomes \<open>hello _world_\<close> and the cursor is at column 13.
\<close>

theorem applySingleLineToggle_wraps_and_collapses:
  assumes "n < length (lines editor)"
    and "selFrom < selTo" and "selFrom \<le> length (lines editor ! n)"
    and "\<not> isUnderlined (getUnderlineState (lines editor ! n) selFrom selTo)"
  shows "(let lineText = lines editor ! n;
              content = str_slice lineText selFrom selTo;
              marked = take selFrom lineText @ [underscore] @ content @ [underscore];
              afterMark = \<lparr>line = n, ch = length marked\<rparr>
          in applySingleLineToggle editor n selFrom selTo =
               Some (editor\<lparr>lines := (lines editor)[n := marked @ drop selTo lineText],
                           cursorFrom := afterMark, cursorTo := afterMark\<rparr>)
             \<and> marked ! (length marked - 1) = underscore
             \<and> (selTo \<le> length lineText \<longrightarrow> length marked = selTo + 2))
         \<and> applySingleLineToggle
              \<lparr>lines = [js ''hello world''], cursorFrom = \<lparr>line = 0, ch = 6\<rparr>,
               cursorTo = \<lparr>line = 0, ch = 11\<rparr>\<rparr> 0 6 11 =
            Some \<lparr>lines = [js ''hello _world_''], cursorFrom = \<lparr>line = 0, ch = 13\<rparr>,
                  cursorTo = \<lparr>line = 0, ch = 13\<rparr>\<rparr>"
proof -
  have scenario: "applySingleLineToggle
              \<lparr>lines = [js ''hello world''], cursorFrom = \<lparr>line = 0, ch = 6\<rparr>,
               cursorTo = \<lparr>line = 0, ch = 11\<rparr>\<rparr> 0 6 11 =
            Some \<lparr>lines = [js ''hello _world_''], cursorFrom = \<lparr>line = 0, ch = 13\<rparr>,
                  cursorTo = \<lparr>line = 0, ch = 13\<rparr>\<rparr>"
    by code_simp
  from assms(2) have ne: "selFrom \<noteq> selTo" by simp
  define lineText where "lineText = lines editor ! n"
  define content where "content = str_slice lineText selFrom selTo"
  define marked where "marked = take selFrom lineText @ [underscore] @ content @ [underscore]"
  have lm: "length marked = selFrom + length content + 2"
    using assms(3) by (simp add: marked_def lineText_def)
  have a: "applySingleLineToggle editor n selFrom selTo =
             Some (editor\<lparr>lines := (lines editor)[n := marked @ drop selTo lineText],
                         cursorFrom := \<lparr>line = n, ch = length marked\<rparr>,
                         cursorTo := \<lparr>line = n, ch = length marked\<rparr>\<rparr>)"
    unfolding lm
    by (simp add: applySingleLineToggle_wrap [OF assms(1) ne assms(4)] marked_def content_def
        lineText_def)
  have last_mark: "(xs @ [underscore]) ! (length (xs @ [underscore]) - 1) = underscore" for xs
    by simp
  have eq: "marked = (take selFrom lineText @ [underscore] @ content) @ [underscore]"
    by (simp add: marked_def)
  have b: "marked ! (length marked - 1) = underscore"
    unfolding eq by (rule last_mark)
  have c: "selTo \<le> length lineText \<longrightarrow> length marked = selTo + 2"
    using assms(2) by (auto simp add: lm content_def length_str_slice)
  from a b c show ?thesis
    unfolding Let_def lineText_def [symmetric] content_def [symmetric] marked_def [symmetric]
    using scenario by blast
qed

theorem applySingleLineToggle_wraps_and_collapses_witness:
  "applySingleLineToggle
     \<lparr>lines = [js ''ab'', js ''say hi''], cursorFrom = \<lparr>line = 1, ch = 4\<rparr>,
      cursorTo = \<lparr>line = 1, ch = 6\<rparr>\<rparr> 1 4 6 =
   Some \<lparr>lines = [js ''ab'', js ''say _hi_''], cursorFrom = \<lparr>line = 1, ch = 8\<rparr>,
         cursorTo = \<lparr>line = 1, ch = 8\<rparr>\<rparr>"
proof -
  let ?e = "\<lparr>lines = [js ''ab'', js ''say hi''], cursorFrom = \<lparr>line = 1, ch = 4\<rparr>,
             cursorTo = \<lparr>line = 1, ch = 6\<rparr>\<rparr>"
  have h1: "1 < length (lines ?e)" by simp
  have h2: "(4::nat) < 6" by simp
  have h3: "4 \<le> length (lines ?e ! 1)" by (simp add: js_def)
  have h4: "\<not> isUnderlined (getUnderlineState (lines ?e ! 1) 4 6)" by code_simp
  have m: "take 4 (lines ?e ! 1) @ [underscore] @ str_slice (lines ?e ! 1) 4 6 @ [underscore]
           = js ''say _hi_''"
    by code_simp
  have d: "drop 6 (lines ?e ! 1) = []" by (simp add: js_def)
  have l: "length (js ''say _hi_'') = 8" by (simp add: js_def)
  from applySingleLineToggle_wraps_and_collapses [OF h1 h2 h3 h4]
  have "applySingleLineToggle ?e 1 4 6 =
          Some (?e\<lparr>lines := (lines ?e)[1 := js ''say _hi_'' @ []],
                   cursorFrom := \<lparr>line = 1, ch = length (js ''say _hi_'')\<rparr>,
                   cursorTo := \<lparr>line = 1, ch = length (js ''say _hi_'')\<rparr>\<rparr>)"
    unfolding Let_def m d by (rule conjunct1 [OF conjunct1])
  then show ?thesis by (simp add: l)
qed

subsection \<open>Toggling twice\<close>

lemma getUnderlineState_if:
  assumes "(f + 2 \<le> t \<and> (f < length s \<and> s ! f = underscore)
             \<and> (t - 1 < length s \<and> s ! (t - 1) = underscore)
             \<and> \<not> (Suc f < length s \<and> s ! Suc f = underscore)) = A"
    and "(0 < f \<and> t < length s
             \<and> (f - 1 < length s \<and> s ! (f - 1) = underscore) \<and> s ! t = underscore
             \<and> \<not> (2 \<le> f \<and> f - 2 < length s \<and> s ! (f - 2) = underscore)
             \<and> \<not> (Suc t < length s \<and> s ! Suc t = underscore)) = B"
  shows "getUnderlineState s f t =
     (if A then \<lparr>isUnderlined = True, markFrom = f, markTo = t,
                 contentFrom = f + 1, contentTo = t - 1\<rparr>
      else if B then \<lparr>isUnderlined = True, markFrom = f - 1, markTo = t + 1,
                 contentFrom = f, contentTo = t\<rparr>
      else \<lparr>isUnderlined = False, markFrom = f, markTo = t,
            contentFrom = f, contentTo = t\<rparr>)"
  unfolding assms [symmetric] by (rule getUnderlineState_nat)

text \<open>
  The classification of the content of a freshly wrapped range: the content \<open>c\<close> of a
  range that was not underlined, between the text \<open>a\<close> before it and \<open>b\<close> after it.
\<close>

lemma getUnderlineState_wrapped:
  assumes "c \<noteq> []"
    and "\<not> isUnderlined (getUnderlineState (a @ c @ b) (length a) (length a + length c))"
  shows "getUnderlineState (a @ [underscore] @ c @ [underscore] @ b)
           (length a + 1) (length a + length c + 1) =
     (if \<not> (a \<noteq> [] \<and> last a = underscore) \<and> \<not> (b \<noteq> [] \<and> hd b = underscore)
      then \<lparr>isUnderlined = True, markFrom = length a, markTo = length a + length c + 2,
            contentFrom = length a + 1, contentTo = length a + length c + 1\<rparr>
      else \<lparr>isUnderlined = False, markFrom = length a + 1, markTo = length a + length c + 1,
            contentFrom = length a + 1, contentTo = length a + length c + 1\<rparr>)"
proof -
  define L where "L = a @ c @ b"
  define L' where "L' = a @ [underscore] @ c @ [underscore] @ b"
  define la where "la = length a"
  define f where "f = la + 1"
  from assms(1) obtain k where k: "length c = Suc k" by (cases c) auto
  define t where "t = la + Suc k + 1"
  define C1 where "C1 \<longleftrightarrow> 1 \<le> k \<and> c ! 0 = underscore \<and> c ! k = underscore
                      \<and> c ! 1 \<noteq> underscore"
  define G where "G \<longleftrightarrow> \<not> (a \<noteq> [] \<and> last a = underscore) \<and> \<not> (b \<noteq> [] \<and> hd b = underscore)"
  have lenL: "length L = la + Suc k + length b" and lenL': "length L' = la + Suc k + length b + 2"
    by (simp_all add: L_def L'_def la_def k)
  text \<open>the original line\<close>
  have o1: "L ! la = c ! 0" by (simp add: L_def la_def nth_append k)
  have o2: "L ! (la + Suc k - 1) = c ! k" by (simp add: L_def la_def nth_append k)
  have o3: "L ! Suc la = c ! 1" if "1 \<le> k" using that by (simp add: L_def la_def nth_append k)
  have A: "(la + 2 \<le> la + Suc k \<and> (la < length L \<and> L ! la = underscore)
             \<and> (la + Suc k - 1 < length L \<and> L ! (la + Suc k - 1) = underscore)
             \<and> \<not> (Suc la < length L \<and> L ! Suc la = underscore)) = C1"
    unfolding C1_def o1 o2 lenL using o3 by auto
  have "getUnderlineState L la (la + Suc k) =
     (if C1 then \<lparr>isUnderlined = True, markFrom = la, markTo = la + Suc k,
                 contentFrom = la + 1, contentTo = la + Suc k - 1\<rparr>
      else if True \<and> isUnderlined (getUnderlineState L la (la + Suc k)) \<and> \<not> C1
      then \<lparr>isUnderlined = True, markFrom = la - 1, markTo = la + Suc k + 1,
                 contentFrom = la, contentTo = la + Suc k\<rparr>
      else \<lparr>isUnderlined = False, markFrom = la, markTo = la + Suc k,
            contentFrom = la, contentTo = la + Suc k\<rparr>)"
    using getUnderlineState_if [OF A refl, of ] by (auto split: if_splits)
  with assms(2) have nC1: "\<not> C1"
    by (auto simp add: L_def la_def k split: if_splits)
  text \<open>the wrapped line\<close>
  have w1: "L' ! f = c ! 0" by (simp add: L'_def la_def f_def nth_append k)
  have w2: "L' ! (t - 1) = c ! k" by (simp add: L'_def la_def t_def nth_append k)
  have w3: "L' ! Suc f = c ! 1" if "1 \<le> k"
    using that by (simp add: L'_def la_def f_def nth_append k)
  have w4: "L' ! (f - 1) = underscore" by (simp add: L'_def la_def f_def nth_append)
  have w5: "L' ! t = underscore" by (simp add: L'_def la_def t_def nth_append k)
  have w6: "(2 \<le> f \<and> f - 2 < length L' \<and> L' ! (f - 2) = underscore)
              = (a \<noteq> [] \<and> last a = underscore)"
  proof (cases "a = []")
    case True
    then show ?thesis by (simp add: f_def la_def)
  next
    case False
    then obtain j where j: "length a = Suc j" by (cases a) auto
    with False have "last a = a ! j" by (simp add: last_conv_nth)
    moreover have "L' ! (f - 2) = a ! j" by (simp add: L'_def f_def la_def j nth_append)
    ultimately show ?thesis using False by (simp add: f_def la_def j lenL')
  qed
  have w7: "(Suc t < length L' \<and> L' ! Suc t = underscore) = (b \<noteq> [] \<and> hd b = underscore)"
  proof (cases "b = []")
    case True
    then show ?thesis by (simp add: t_def lenL')
  next
    case False
    then have "hd b = b ! 0" by (simp add: hd_conv_nth)
    moreover have "L' ! Suc t = b ! 0"
      by (simp add: L'_def t_def la_def k nth_append)
    ultimately show ?thesis using False by (simp add: t_def lenL')
  qed
  have A': "(f + 2 \<le> t \<and> (f < length L' \<and> L' ! f = underscore)
             \<and> (t - 1 < length L' \<and> L' ! (t - 1) = underscore)
             \<and> \<not> (Suc f < length L' \<and> L' ! Suc f = underscore)) = False"
  proof -
    have "\<not> (1 \<le> k \<and> L' ! f = underscore \<and> L' ! (t - 1) = underscore
              \<and> L' ! Suc f \<noteq> underscore)"
      using nC1 w3 unfolding C1_def w1 w2 by auto
    moreover have "f + 2 \<le> t \<longleftrightarrow> 1 \<le> k" by (simp add: f_def t_def)
    ultimately show ?thesis by auto
  qed
  have B': "(0 < f \<and> t < length L'
             \<and> (f - 1 < length L' \<and> L' ! (f - 1) = underscore) \<and> L' ! t = underscore
             \<and> \<not> (2 \<le> f \<and> f - 2 < length L' \<and> L' ! (f - 2) = underscore)
             \<and> \<not> (Suc t < length L' \<and> L' ! Suc t = underscore)) = G"
  proof -
    have "0 < f" "t < length L'" "f - 1 < length L'" by (simp_all add: f_def t_def lenL')
    then show ?thesis unfolding w4 w5 w6 w7 G_def by simp
  qed
  have "getUnderlineState L' f t =
     (if G then \<lparr>isUnderlined = True, markFrom = f - 1, markTo = t + 1,
                 contentFrom = f, contentTo = t\<rparr>
      else \<lparr>isUnderlined = False, markFrom = f, markTo = t,
            contentFrom = f, contentTo = t\<rparr>)"
    using getUnderlineState_if [OF A' B'] by simp
  then show ?thesis
    by (simp add: L'_def f_def t_def la_def k G_def)
qed

lemma isUnderscore_before:
  "isUnderscore (charAt s (int f - 1)) \<longleftrightarrow> take f s \<noteq> [] \<and> last (take f s) = underscore"
  if "f \<le> length s"
proof (cases f)
  case 0
  then show ?thesis unfolding charAt_minus1 by (simp add: not_isUnderscore_None)
next
  case (Suc j)
  with that have "last (take f s) = s ! j" and "take f s \<noteq> []"
    by (simp_all add: take_Suc_conv_app_nth)
  with Suc that show ?thesis
    unfolding charAt_minus1 by (simp add: isUnderscore_charAt)
qed

lemma isUnderscore_after:
  "isUnderscore (charAt s (int t)) \<longleftrightarrow> drop t s \<noteq> [] \<and> hd (drop t s) = underscore"
  by (auto simp add: isUnderscore_charAt hd_drop_conv_nth)

text \<open>
  C1, as amended. Let a non-empty range \<open>[selFrom, selTo)\<close> inside a line be classified
  as not underlined. The toggle on it followed by the toggle on the resulting content
  range \<open>[selFrom + 1, selTo + 1)\<close> returns the buffer to its original text when neither
  \<open>line[selFrom - 1]\<close> nor \<open>line[selTo]\<close> is an underscore; when one of them is, the
  second toggle wraps the content once more and the line is not restored.
\<close>

theorem toggle_twice_restores_line:
  assumes "n < length (lines editor)"
    and "selFrom < selTo" and "selTo \<le> length (lines editor ! n)"
    and "\<not> isUnderlined (getUnderlineState (lines editor ! n) selFrom selTo)"
  shows "\<exists>e1 e2. applySingleLineToggle editor n selFrom selTo = Some e1
           \<and> applySingleLineToggle e1 n (selFrom + 1) (selTo + 1) = Some e2
           \<and> (\<not> isUnderscore (charAt (lines editor ! n) (int selFrom - 1))
               \<and> \<not> isUnderscore (charAt (lines editor ! n) (int selTo))
               \<longrightarrow> lines e2 = lines editor)
           \<and> (isUnderscore (charAt (lines editor ! n) (int selFrom - 1))
               \<or> isUnderscore (charAt (lines editor ! n) (int selTo))
               \<longrightarrow> lines e2 ! n \<noteq> lines editor ! n)"
proof -
  define l where "l = lines editor ! n"
  define a where "a = take selFrom l"
  define c where "c = str_slice l selFrom selTo"
  define b where "b = drop selTo l"
  define L' where "L' = a @ [underscore] @ c @ [underscore] @ b"
  from assms(2,3) have la: "length a = selFrom" and lc: "length a + length c = selTo"
    and cne: "c \<noteq> []"
    by (auto simp add: a_def c_def l_def str_slice_def)
  have "take selFrom l @ take (selTo - selFrom) (drop selFrom l) = take selTo l"
    using assms(2) by (metis add_diff_inverse_nat less_imp_le_nat not_less take_add)
  then have l: "l = a @ c @ b"
    by (simp add: a_def c_def b_def str_slice_def flip: append_assoc)
  from assms(2) have ne: "selFrom \<noteq> selTo" and ne': "selFrom + 1 \<noteq> selTo + 1" by simp_all
  define e1 where "e1 = editor\<lparr>lines := (lines editor)[n := L'],
      cursorFrom := \<lparr>line = n, ch = selFrom + length c + 2\<rparr>,
      cursorTo := \<lparr>line = n, ch = selFrom + length c + 2\<rparr>\<rparr>"
  have step1: "applySingleLineToggle editor n selFrom selTo = Some e1"
    using applySingleLineToggle_wrap [OF assms(1) ne assms(4)]
    by (simp add: e1_def L'_def a_def b_def c_def l_def)
  have n1: "n < length (lines e1)" and l1: "lines e1 ! n = L'"
    using assms(1) by (simp_all add: e1_def)
  have nu: "\<not> isUnderlined (getUnderlineState (a @ c @ b) (length a) (length a + length c))"
  proof -
    have "selFrom + length c = selTo" using la lc by simp
    then show ?thesis using assms(4) unfolding la l [symmetric] l_def by simp
  qed
  define G where "G \<longleftrightarrow> \<not> (a \<noteq> [] \<and> last a = underscore) \<and> \<not> (b \<noteq> [] \<and> hd b = underscore)"
  have G: "G \<longleftrightarrow> \<not> isUnderscore (charAt l (int selFrom - 1)) \<and> \<not> isUnderscore (charAt l (int selTo))"
    using assms(2,3) isUnderscore_before [of selFrom l] isUnderscore_after [of l selTo]
    by (simp add: G_def a_def b_def l_def)
  have st: "getUnderlineState L' (selFrom + 1) (selTo + 1) =
     (if G
      then \<lparr>isUnderlined = True, markFrom = selFrom, markTo = selTo + 2,
            contentFrom = selFrom + 1, contentTo = selTo + 1\<rparr>
      else \<lparr>isUnderlined = False, markFrom = selFrom + 1, markTo = selTo + 1,
            contentFrom = selFrom + 1, contentTo = selTo + 1\<rparr>)"
    using getUnderlineState_wrapped [OF cne nu] la lc
    by (simp add: L'_def G_def add.assoc [symmetric])
  have lenL': "length L' = length l + 2" by (simp add: L'_def l)
  show ?thesis
  proof (cases G)
    case True
    have t1: "take selFrom L' = a" by (simp add: L'_def la)
    have "drop (selFrom + 1) L' = c @ [underscore] @ b" by (simp add: L'_def la)
    then have t2: "str_slice L' (selFrom + 1) (selTo + 1) = c"
      using lc la by (simp add: str_slice_def)
    have "selTo + 2 = length (a @ [underscore] @ c @ [underscore])" using lc by simp
    then have t3: "drop (selTo + 2) L' = b"
      unfolding L'_def by (metis append.assoc append_eq_conv_conj)
    from t2 have t2': "str_slice L' (Suc selFrom) (Suc selTo) = c" by simp
    from t3 have t3': "drop (Suc (Suc selTo)) L' = b" by simp
    define e2 where "e2 = e1\<lparr>lines := (lines e1)[n := l],
        cursorFrom := \<lparr>line = n, ch = selFrom\<rparr>,
        cursorTo := \<lparr>line = n, ch = selFrom + length c\<rparr>\<rparr>"
    from st True have st': "getUnderlineState (lines e1 ! n) (selFrom + 1) (selTo + 1) =
        \<lparr>isUnderlined = True, markFrom = selFrom, markTo = selTo + 2,
         contentFrom = selFrom + 1, contentTo = selTo + 1\<rparr>"
      by (simp add: l1)
    have step2: "applySingleLineToggle e1 n (selFrom + 1) (selTo + 1) = Some e2"
      using applySingleLineToggle_unwrap [OF n1 ne' st']
      by (simp add: l1 t1 t2' t3' e2_def l)
    have "lines e2 = lines editor"
      using assms(1) by (simp add: e2_def e1_def l_def)
    with step1 step2 True G show ?thesis by (auto simp add: l_def)
  next
    case False
    with st have st': "\<not> isUnderlined (getUnderlineState (lines e1 ! n) (selFrom + 1) (selTo + 1))"
      by (simp add: l1)
    define l2 where "l2 = take (selFrom + 1) L' @ [underscore]
                         @ str_slice L' (selFrom + 1) (selTo + 1) @ [underscore]
                         @ drop (selTo + 1) L'"
    define e2 where "e2 = e1\<lparr>lines := (lines e1)[n := l2],
        cursorFrom := \<lparr>line = n,
           ch = selFrom + 1 + length (str_slice L' (selFrom + 1) (selTo + 1)) + 2\<rparr>,
        cursorTo := \<lparr>line = n,
           ch = selFrom + 1 + length (str_slice L' (selFrom + 1) (selTo + 1)) + 2\<rparr>\<rparr>"
    have step2: "applySingleLineToggle e1 n (selFrom + 1) (selTo + 1) = Some e2"
      using applySingleLineToggle_wrap [OF n1 ne' st']
      by (simp add: l1 e2_def l2_def)
    have "length l2 = length l + 4"
      using assms(2,3) lenL' by (simp add: l2_def length_str_slice l_def)
    then have "l2 \<noteq> l" by auto
    moreover have "lines e2 ! n = l2" using n1 by (simp add: e2_def)
    ultimately have "lines e2 ! n \<noteq> lines editor ! n" by (simp add: l_def)
    with step1 step2 False G show ?thesis by (auto simp add: l_def)
  qed
qed

theorem toggle_twice_restores_line_witness:
  "applySingleLineToggle
     \<lparr>lines = [js ''hello world''], cursorFrom = \<lparr>line = 0, ch = 6\<rparr>,
      cursorTo = \<lparr>line = 0, ch = 11\<rparr>\<rparr> 0 6 11 =
   Some \<lparr>lines = [js ''hello _world_''], cursorFrom = \<lparr>line = 0, ch = 13\<rparr>,
         cursorTo = \<lparr>line = 0, ch = 13\<rparr>\<rparr>
   \<and> (\<exists>e2. applySingleLineToggle
             \<lparr>lines = [js ''hello _world_''], cursorFrom = \<lparr>line = 0, ch = 13\<rparr>,
              cursorTo = \<lparr>line = 0, ch = 13\<rparr>\<rparr> 0 7 12 = Some e2
           \<and> lines e2 = [js ''hello world''])"
proof -
  let ?e = "\<lparr>lines = [js ''hello world''], cursorFrom = \<lparr>line = 0, ch = 6\<rparr>,
             cursorTo = \<lparr>line = 0, ch = 11\<rparr>\<rparr>"
  have h1: "0 < length (lines ?e)" by simp
  have h2: "(6::nat) < 11" by simp
  have h3: "11 \<le> length (lines ?e ! 0)" by (simp add: js_def)
  have h4: "\<not> isUnderlined (getUnderlineState (lines ?e ! 0) 6 11)" by code_simp
  have g: "\<not> isUnderscore (charAt (lines ?e ! 0) (int 6 - 1))
           \<and> \<not> isUnderscore (charAt (lines ?e ! 0) (int 11))"
    by code_simp
  have s1: "applySingleLineToggle ?e 0 6 11 =
     Some \<lparr>lines = [js ''hello _world_''], cursorFrom = \<lparr>line = 0, ch = 13\<rparr>,
           cursorTo = \<lparr>line = 0, ch = 13\<rparr>\<rparr>"
    by code_simp
  from toggle_twice_restores_line [OF h1 h2 h3 h4] g s1
  show ?thesis by auto
qed

text \<open>
  C1, as stated, fails next to an underscore: in \<open>a_\<close> the range \<open>[0, 1)\<close> is not
  underlined; the first toggle gives \<open>_a__\<close>, where the content range \<open>[1, 2)\<close> is again
  not underlined because of the underscore after the closing mark, and the second toggle
  gives \<open>__a___\<close>.
\<close>

theorem toggle_twice_counterexample:
  "\<not> isUnderlined (getUnderlineState (js ''a_'') 0 1)
   \<and> applySingleLineToggle
       \<lparr>lines = [js ''a_''], cursorFrom = \<lparr>line = 0, ch = 0\<rparr>,
        cursorTo = \<lparr>line = 0, ch = 1\<rparr>\<rparr> 0 0 1 =
     Some \<lparr>lines = [js ''_a__''], cursorFrom = \<lparr>line = 0, ch = 3\<rparr>,
           cursorTo = \<lparr>line = 0, ch = 3\<rparr>\<rparr>
   \<and> applySingleLineToggle
       \<lparr>lines = [js ''_a__''], cursorFrom = \<lparr>line = 0, ch = 3\<rparr>,
        cursorTo = \<lparr>line = 0, ch = 3\<rparr>\<rparr> 0 (0 + 1) (1 + 1) =
     Some \<lparr>lines = [js ''__a___''], cursorFrom = \<lparr>line = 0, ch = 4\<rparr>,
           cursorTo = \<lparr>line = 0, ch = 4\<rparr>\<rparr>
   \<and> js ''__a___'' \<noteq> js ''a_''"
  by code_simp

section \<open>Properties of the command\<close>

lemma adjacent_underscores_inside:
  assumes "isUnderscore (charAt s (int c - 1))" and "isUnderscore (charAt s (int c))"
  shows "0 < c \<and> c < length s"
proof -
  from assms(1) have "0 < c"
    unfolding charAt_minus1 by (cases "0 < c") (simp_all add: not_isUnderscore_None)
  moreover from assms(2) have "c < length s" by (simp add: isUnderscore_charAt)
  ultimately show ?thesis by simp
qed

lemma toggleUnderlineCommand_no_selection:
  assumes "cursorFrom editor = \<lparr>line = n, ch = c\<rparr>" and "cursorTo editor = \<lparr>line = n, ch = c\<rparr>"
    and "n < length (lines editor)" and "lines editor ! n = lineText"
    and "range_from (detectWordRange lineText c) = range_to (detectWordRange lineText c)"
  shows "toggleUnderlineCommand editor =
     (if isUnderscore (charAt lineText (int c - 1)) \<and> isUnderscore (charAt lineText (int c))
      then Some (editor\<lparr>lines := (lines editor)[n := take (c - 1) lineText @ drop (c + 1) lineText]\<rparr>)
      else Some (editor\<lparr>lines := (lines editor)
                    [n := take c lineText @ [underscore, underscore] @ drop c lineText],
                  cursorFrom := \<lparr>line = n, ch = c + 1\<rparr>,
                  cursorTo := \<lparr>line = n, ch = c + 1\<rparr>\<rparr>))"
proof -
  have rs: "replaceSelection editor [underscore, underscore] =
            Some (editor\<lparr>lines := (lines editor)
                    [n := take c lineText @ [underscore, underscore] @ drop c lineText]\<rparr>)"
    using assms(3) by (simp add: replaceSelection_def getLine_def str_slice_0 assms(1,2,4))
  have rr: "replaceRange editor [] \<lparr>line = n, ch = c - 1\<rparr> \<lparr>line = n, ch = c + 1\<rparr> =
            Some (editor\<lparr>lines := (lines editor)[n := take (c - 1) lineText @ drop (c + 1) lineText]\<rparr>)"
    using replaceRange_line [OF assms(3), of "[]" "c - 1" "c + 1"] by (simp add: assms(4))
  have cond: "(0 < c \<and> c < length lineText \<and> isUnderscore (charAt lineText (int c - 1))
                \<and> isUnderscore (charAt lineText (int c)))
              = (isUnderscore (charAt lineText (int c - 1)) \<and> isUnderscore (charAt lineText (int c)))"
    using adjacent_underscores_inside [of lineText c] by blast
  have "toggleUnderlineCommand editor =
     (if 0 < c \<and> c < length lineText \<and> isUnderscore (charAt lineText (int c - 1))
                \<and> isUnderscore (charAt lineText (int c))
      then replaceRange editor [] \<lparr>line = n, ch = c - 1\<rparr> \<lparr>line = n, ch = c + 1\<rparr>
      else (case replaceSelection editor [underscore, underscore] of
              None \<Rightarrow> None
            | Some editor' \<Rightarrow> Some (setCursor editor' \<lparr>line = n, ch = c + 1\<rparr>)))"
    using assms(3,5)
    by (simp add: toggleUnderlineCommand_def Let_def getLine_def assms(1,2,4)
        cong: option.case_cong)
  then show ?thesis
    unfolding cond rs rr by (simp add: setCursor_def)
qed

text \<open>
  C6. With no selection and an empty range from the word detector, the command deletes
  the two columns \<open>[ch - 1, ch + 1)\<close> when \<open>line[ch - 1]\<close> and \<open>line[ch]\<close> are both
  underscores, and otherwise inserts two underscores at the cursor and puts the cursor
  between them. At column 1 of \<open>__\<close> the line becomes empty; at column 5 of
  \<open>hello world\<close> the marks are inserted at column 5 and the cursor is at column 6.
\<close>

theorem toggleUnderlineCommand_empty_selection:
  assumes "line (cursorFrom editor) = line (cursorTo editor)"
    and "ch (cursorFrom editor) = ch (cursorTo editor)"
    and "line (cursorFrom editor) < length (lines editor)"
    and "range_from (detectWordRange (lines editor ! line (cursorFrom editor))
                       (ch (cursorFrom editor)))
         = range_to (detectWordRange (lines editor ! line (cursorFrom editor))
                       (ch (cursorFrom editor)))"
  shows "(let n = line (cursorFrom editor);
              c = ch (cursorFrom editor);
              lineText = lines editor ! n
          in toggleUnderlineCommand editor =
               Some (if isUnderscore (charAt lineText (int c - 1))
                        \<and> isUnderscore (charAt lineText (int c))
                     then editor\<lparr>lines := (lines editor)
                            [n := take (c - 1) lineText @ drop (c + 1) lineText]\<rparr>
                     else editor\<lparr>lines := (lines editor)
                            [n := take c lineText @ [underscore, underscore] @ drop c lineText],
                          cursorFrom := \<lparr>line = n, ch = c + 1\<rparr>,
                          cursorTo := \<lparr>line = n, ch = c + 1\<rparr>\<rparr>))
         \<and> toggleUnderlineCommand
              \<lparr>lines = [js ''__''], cursorFrom = \<lparr>line = 0, ch = 1\<rparr>,
               cursorTo = \<lparr>line = 0, ch = 1\<rparr>\<rparr> =
            Some \<lparr>lines = [js ''''], cursorFrom = \<lparr>line = 0, ch = 1\<rparr>,
                  cursorTo = \<lparr>line = 0, ch = 1\<rparr>\<rparr>
         \<and> toggleUnderlineCommand
              \<lparr>lines = [js ''hello world''], cursorFrom = \<lparr>line = 0, ch = 5\<rparr>,
               cursorTo = \<lparr>line = 0, ch = 5\<rparr>\<rparr> =
            Some \<lparr>lines = [js ''hello__ world''], cursorFrom = \<lparr>line = 0, ch = 6\<rparr>,
                  cursorTo = \<lparr>line = 0, ch = 6\<rparr>\<rparr>"
proof -
  define n where "n = line (cursorFrom editor)"
  define c where "c = ch (cursorFrom editor)"
  define lineText where "lineText = lines editor ! n"
  have pf: "cursorFrom editor = \<lparr>line = n, ch = c\<rparr>" by (simp add: n_def c_def)
  have pt: "cursorTo editor = \<lparr>line = n, ch = c\<rparr>" using assms(1,2) by (simp add: n_def c_def)
  have nl: "n < length (lines editor)" using assms(3) by (simp add: n_def)
  have lt: "lines editor ! n = lineText" by (simp add: lineText_def)
  have w: "range_from (detectWordRange lineText c) = range_to (detectWordRange lineText c)"
    using assms(4) by (simp add: n_def c_def lineText_def)
  have general: "toggleUnderlineCommand editor =
               Some (if isUnderscore (charAt lineText (int c - 1))
                        \<and> isUnderscore (charAt lineText (int c))
                     then editor\<lparr>lines := (lines editor)
                            [n := take (c - 1) lineText @ drop (c + 1) lineText]\<rparr>
                     else editor\<lparr>lines := (lines editor)
                            [n := take c lineText @ [underscore, underscore] @ drop c lineText],
                          cursorFrom := \<lparr>line = n, ch = c + 1\<rparr>,
                          cursorTo := \<lparr>line = n, ch = c + 1\<rparr>\<rparr>)"
    unfolding toggleUnderlineCommand_no_selection [OF pf pt nl lt w] by (rule if_distrib [symmetric])
  have s1: "toggleUnderlineCommand
              \<lparr>lines = [js ''__''], cursorFrom = \<lparr>line = 0, ch = 1\<rparr>,
               cursorTo = \<lparr>line = 0, ch = 1\<rparr>\<rparr> =
            Some \<lparr>lines = [js ''''], cursorFrom = \<lparr>line = 0, ch = 1\<rparr>,
                  cursorTo = \<lparr>line = 0, ch = 1\<rparr>\<rparr>"
    by code_simp
  have s2: "toggleUnderlineCommand
              \<lparr>lines = [js ''hello world''], cursorFrom = \<lparr>line = 0, ch = 5\<rparr>,
               cursorTo = \<lparr>line = 0, ch = 5\<rparr>\<rparr> =
            Some \<lparr>lines = [js ''hello__ world''], cursorFrom = \<lparr>line = 0, ch = 6\<rparr>,
                  cursorTo = \<lparr>line = 0, ch = 6\<rparr>\<rparr>"
    by code_simp
  from general s1 s2 show ?thesis
    unfolding Let_def n_def [symmetric] c_def [symmetric] lineText_def [symmetric] by blast
qed

theorem toggleUnderlineCommand_empty_selection_witness:
  "toggleUnderlineCommand
     \<lparr>lines = [js ''a'', js ''x __ y''], cursorFrom = \<lparr>line = 1, ch = 3\<rparr>,
      cursorTo = \<lparr>line = 1, ch = 3\<rparr>\<rparr> =
   Some \<lparr>lines = [js ''a'', js ''x  y''], cursorFrom = \<lparr>line = 1, ch = 3\<rparr>,
         cursorTo = \<lparr>line = 1, ch = 3\<rparr>\<rparr>
   \<and> toggleUnderlineCommand
     \<lparr>lines = [js ''a'', js ''x  y''], cursorFrom = \<lparr>line = 1, ch = 2\<rparr>,
      cursorTo = \<lparr>line = 1, ch = 2\<rparr>\<rparr> =
   Some \<lparr>lines = [js ''a'', js ''x __ y''], cursorFrom = \<lparr>line = 1, ch = 3\<rparr>,
         cursorTo = \<lparr>line = 1, ch = 3\<rparr>\<rparr>"
proof -
  let ?d = "\<lparr>lines = [js ''a'', js ''x __ y''], cursorFrom = \<lparr>line = 1, ch = 3\<rparr>,
             cursorTo = \<lparr>line = 1, ch = 3\<rparr>\<rparr>"
  let ?i = "\<lparr>lines = [js ''a'', js ''x  y''], cursorFrom = \<lparr>line = 1, ch = 2\<rparr>,
             cursorTo = \<lparr>line = 1, ch = 2\<rparr>\<rparr>"
  have d1: "line (cursorFrom ?d) = line (cursorTo ?d)" by simp
  have d2: "ch (cursorFrom ?d) = ch (cursorTo ?d)" by simp
  have d3: "line (cursorFrom ?d) < length (lines ?d)" by simp
  have d4: "range_from (detectWordRange (lines ?d ! line (cursorFrom ?d)) (ch (cursorFrom ?d)))
          = range_to (detectWordRange (lines ?d ! line (cursorFrom ?d)) (ch (cursorFrom ?d)))"
    by code_simp
  have d5: "isUnderscore (charAt (lines ?d ! line (cursorFrom ?d)) (int (ch (cursorFrom ?d)) - 1))
          \<and> isUnderscore (charAt (lines ?d ! line (cursorFrom ?d)) (int (ch (cursorFrom ?d))))"
    by code_simp
  have d6: "take (ch (cursorFrom ?d) - 1) (lines ?d ! line (cursorFrom ?d))
            @ drop (ch (cursorFrom ?d) + 1) (lines ?d ! line (cursorFrom ?d)) = js ''x  y''"
    by code_simp
  have i1: "line (cursorFrom ?i) = line (cursorTo ?i)" by simp
  have i2: "ch (cursorFrom ?i) = ch (cursorTo ?i)" by simp
  have i3: "line (cursorFrom ?i) < length (lines ?i)" by simp
  have i4: "range_from (detectWordRange (lines ?i ! line (cursorFrom ?i)) (ch (cursorFrom ?i)))
          = range_to (detectWordRange (lines ?i ! line (cursorFrom ?i)) (ch (cursorFrom ?i)))"
    by code_simp
  have i5: "\<not> isUnderscore (charAt (lines ?i ! line (cursorFrom ?i)) (int (ch (cursorFrom ?i))))"
    by code_simp
  have i6: "take (ch (cursorFrom ?i)) (lines ?i ! line (cursorFrom ?i)) @ [underscore, underscore]
            @ drop (ch (cursorFrom ?i)) (lines ?i ! line (cursorFrom ?i)) = js ''x __ y''"
    by code_simp
  have a: "toggleUnderlineCommand ?d =
     Some (?d\<lparr>lines := (lines ?d)[line (cursorFrom ?d) := js ''x  y'']\<rparr>)"
    using toggleUnderlineCommand_empty_selection [OF d1 d2 d3 d4, THEN conjunct1]
    unfolding Let_def d6 using d5 by simp
  have b: "toggleUnderlineCommand ?i =
     Some (?i\<lparr>lines := (lines ?i)[line (cursorFrom ?i) := js ''x __ y''],
              cursorFrom := \<lparr>line = line (cursorFrom ?i), ch = ch (cursorFrom ?i) + 1\<rparr>,
              cursorTo := \<lparr>line = line (cursorFrom ?i), ch = ch (cursorFrom ?i) + 1\<rparr>\<rparr>)"
    using toggleUnderlineCommand_empty_selection [OF i1 i2 i3 i4, THEN conjunct1]
    unfolding Let_def i6 using i5 by simp
  from a b show ?thesis by simp
qed

section \<open>Properties of the multi-line toggle\<close>

lemma shouldRemove_strict: "shouldRemove k n = strictMajority k n"
proof -
  have "(real n / 2 < real k) = (real n < 2 * real k)" by (simp add: field_simps)
  also have "\<dots> = (real n < real (2 * k))" by simp
  also have "\<dots> = (n < 2 * k)" by (rule of_nat_less_iff)
  finally show ?thesis by (simp add: shouldRemove_def strictMajority_def)
qed

lemma countLoop_counts:
  assumes "line selTo < length (lines editor)"
  shows "countLoop editor selFrom selTo i u t =
     Some (u + length (filter (\<lambda>j. isUnderlined (sliceState editor selFrom selTo j))
                         (filter (sliceNonEmpty editor selFrom selTo) [i ..< Suc (line selTo)])),
           t + length (filter (sliceNonEmpty editor selFrom selTo) [i ..< Suc (line selTo)]))"
  using assms
proof (induction editor selFrom selTo i u t rule: countLoop.induct)
  case (1 editor selFrom selTo i u t)
  show ?case
  proof (cases "i \<le> line selTo")
    case False
    then show ?thesis by (subst countLoop.simps) simp
  next
    case True
    with "1.prems" have gl: "getLine editor i = Some (lines editor ! i)"
      by (simp add: getLine_def)
    from True have up: "[i ..< Suc (line selTo)] = i # [Suc i ..< Suc (line selTo)]"
      by (simp add: upt_conv_Cons)
    define sl where "sl = getLineSlice (lines editor ! i) i selFrom selTo"
    have ne: "sliceNonEmpty editor selFrom selTo i = (range_from sl < range_to sl)"
      by (simp add: sliceNonEmpty_def selectedSlice_def sl_def)
    have un: "isUnderlined (sliceState editor selFrom selTo i)
                = isUnderlined (getUnderlineState (lines editor ! i) (range_from sl) (range_to sl))"
      by (simp add: sliceState_def selectedSlice_def sl_def)
    consider (empty) "range_to sl \<le> range_from sl"
      | (und) "range_from sl < range_to sl"
          "isUnderlined (getUnderlineState (lines editor ! i) (range_from sl) (range_to sl))"
      | (plain) "range_from sl < range_to sl"
          "\<not> isUnderlined (getUnderlineState (lines editor ! i) (range_from sl) (range_to sl))"
      by linarith
    then show ?thesis
    proof cases
      case empty
      then have "countLoop editor selFrom selTo i u t = countLoop editor selFrom selTo (Suc i) u t"
        using True gl by (subst countLoop.simps) (simp add: sl_def [symmetric] Let_def)
      also note "1.IH"(1) [OF True gl sl_def empty "1.prems"]
      finally show ?thesis using empty by (simp add: up ne del: upt_Suc)
    next
      case und
      then have nle: "\<not> range_to sl \<le> range_from sl" by simp
      from und have "countLoop editor selFrom selTo i u t
                   = countLoop editor selFrom selTo (Suc i) (u + 1) (t + 1)"
        using True gl by (subst countLoop.simps) (simp add: sl_def [symmetric] Let_def)
      also note "1.IH"(2) [OF True gl sl_def nle und(2) "1.prems"]
      finally show ?thesis using und by (simp add: up ne un del: upt_Suc)
    next
      case plain
      then have nle: "\<not> range_to sl \<le> range_from sl" by simp
      from plain have "countLoop editor selFrom selTo i u t
                   = countLoop editor selFrom selTo (Suc i) u (t + 1)"
        using True gl by (subst countLoop.simps) (simp add: sl_def [symmetric] Let_def)
      also note "1.IH"(3) [OF True gl sl_def nle plain(2) "1.prems"]
      finally show ?thesis using plain by (simp add: up ne un del: upt_Suc)
    qed
  qed
qed

lemma votedLine_cong:
  assumes "lines e1 ! j = lines e ! j"
  shows "votedLine e1 selFrom selTo rm j = votedLine e selFrom selTo rm j"
  by (simp add: votedLine_def sliceNonEmpty_def selectedSlice_def sliceState_def
      strippedLine_def wrappedLine_def assms)

lemma applyToLine_lines:
  assumes "i < length (lines editor)"
  shows "applyToLine editor selFrom selTo rm i =
           Some (editor\<lparr>lines := (lines editor)[i := votedLine editor selFrom selTo rm i]\<rparr>)"
proof -
  define l where "l = lines editor ! i"
  define sl where "sl = getLineSlice l i selFrom selTo"
  define st where "st = getUnderlineState l (range_from sl) (range_to sl)"
  have same: "editor\<lparr>lines := (lines editor)[i := l]\<rparr> = editor"
    by (simp add: l_def)
  have gl: "getLine editor i = Some l" using assms by (simp add: getLine_def l_def)
  have ne: "sliceNonEmpty editor selFrom selTo i = (range_from sl < range_to sl)"
    by (simp add: sliceNonEmpty_def selectedSlice_def sl_def l_def)
  have ss: "sliceState editor selFrom selTo i = st"
    by (simp add: sliceState_def selectedSlice_def sl_def l_def st_def)
  have sp: "strippedLine editor selFrom selTo i =
              take (markFrom st) l @ str_slice l (contentFrom st) (contentTo st) @ drop (markTo st) l"
    by (simp add: strippedLine_def ss l_def)
  have wr: "wrappedLine editor selFrom selTo i =
              take (range_from sl) l @ [underscore]
              @ str_slice l (range_from sl) (range_to sl) @ [underscore] @ drop (range_to sl) l"
    by (simp add: wrappedLine_def selectedSlice_def sl_def l_def)
  have cf: "\<not> isUnderlined st \<Longrightarrow> contentFrom st = range_from sl \<and> contentTo st = range_to sl"
    using getUnderlineState_cases [of l "range_from sl" "range_to sl"]
    by (auto simp add: st_def)
  have vl: "votedLine editor selFrom selTo rm i =
     (if \<not> range_from sl < range_to sl then l
      else if rm \<and> isUnderlined st
      then take (markFrom st) l @ str_slice l (contentFrom st) (contentTo st) @ drop (markTo st) l
      else if \<not> rm \<and> \<not> isUnderlined st
      then take (range_from sl) l @ [underscore]
              @ str_slice l (range_from sl) (range_to sl) @ [underscore] @ drop (range_to sl) l
      else l)"
    unfolding votedLine_def ne ss sp wr l_def [symmetric] by (rule refl)
  have rr: "replaceRange editor s \<lparr>line = i, ch = x\<rparr> \<lparr>line = i, ch = y\<rparr> =
              Some (editor\<lparr>lines := (lines editor)[i := take x l @ s @ drop y l]\<rparr>)" for s x y
    using replaceRange_line [OF assms] by (simp add: l_def)
  show ?thesis
    unfolding vl applyToLine_def gl option.simps Let_def sl_def [symmetric] st_def [symmetric] rr
    using cf same by (auto simp add: not_less)
qed

lemma applyLoop_lines:
  assumes "i < int (length (lines editor))"
  shows "\<exists>e'. applyLoop editor selFrom selTo rm i = Some e'
           \<and> length (lines e') = length (lines editor)
           \<and> cursorFrom e' = cursorFrom editor \<and> cursorTo e' = cursorTo editor
           \<and> (\<forall>j < length (lines editor).
                 lines e' ! j =
                   (if int (line selFrom) \<le> int j \<and> int j \<le> i
                    then votedLine editor selFrom selTo rm j else lines editor ! j))"
  using assms
proof (induction editor selFrom selTo rm i rule: applyLoop.induct)
  case (1 editor selFrom selTo rm i)
  show ?case
  proof (cases "int (line selFrom) \<le> i")
    case False
    then show ?thesis by (subst applyLoop.simps) auto
  next
    case True
    then have i0: "0 \<le> i" by simp
    with "1.prems" have ni: "nat i < length (lines editor)" by simp
    define e1 where "e1 = editor\<lparr>lines := (lines editor)
                              [nat i := votedLine editor selFrom selTo rm (nat i)]\<rparr>"
    have a: "applyToLine editor selFrom selTo rm (nat i) = Some e1"
      unfolding e1_def by (rule applyToLine_lines [OF ni])
    have len1: "length (lines e1) = length (lines editor)" by (simp add: e1_def)
    from "1.prems" have "i - 1 < int (length (lines e1))" by (simp add: len1)
    from "1.IH" [OF True a this] obtain e' where
      e': "applyLoop e1 selFrom selTo rm (i - 1) = Some e'"
        "length (lines e') = length (lines e1)"
        "cursorFrom e' = cursorFrom e1" "cursorTo e' = cursorTo e1"
        "\<forall>j < length (lines e1).
           lines e' ! j =
             (if int (line selFrom) \<le> int j \<and> int j \<le> i - 1
              then votedLine e1 selFrom selTo rm j else lines e1 ! j)"
      by blast
    have run: "applyLoop editor selFrom selTo rm i = Some e'"
      using True a e'(1) by (subst applyLoop.simps) simp
    have "lines e' ! j =
            (if int (line selFrom) \<le> int j \<and> int j \<le> i
             then votedLine editor selFrom selTo rm j else lines editor ! j)"
      if j: "j < length (lines editor)" for j
    proof (cases "j = nat i")
      case True
      with e'(5) j len1 i0 have "lines e' ! j = lines e1 ! j" by simp
      with True ni \<open>int (line selFrom) \<le> i\<close> i0 show ?thesis by (simp add: e1_def)
    next
      case False
      then have same: "lines e1 ! j = lines editor ! j" by (simp add: e1_def)
      from False i0 have "int j \<le> i - 1 \<longleftrightarrow> int j \<le> i" by linarith
      with e'(5) j len1 same show ?thesis
        by (simp add: votedLine_cong [OF same])
    qed
    with run e'(2,3,4) len1 show ?thesis by (simp add: e1_def)
  qed
qed

lemma nonEmptySlices_iff:
  "i \<in> set (nonEmptySlices editor selFrom selTo) \<longleftrightarrow>
     line selFrom \<le> i \<and> i \<le> line selTo \<and> sliceNonEmpty editor selFrom selTo i"
  by (auto simp add: nonEmptySlices_def)

lemma underlinedSlices_iff:
  "i \<in> set (underlinedSlices editor selFrom selTo) \<longleftrightarrow>
     i \<in> set (nonEmptySlices editor selFrom selTo)
     \<and> isUnderlined (sliceState editor selFrom selTo i)"
  by (simp add: underlinedSlices_def)

text \<open>
  C3. The two counts are the number of lines of the selection whose slice is not empty
  and, among these, the number whose slice is classified as underlined; empty slices are
  in neither. The toggle strips the marks of the underlined slices exactly when the
  second count is more than half of the first, and otherwise wraps the slices that are
  not underlined; every other line, and every line whose slice is empty, is left as it
  is. One underlined slice of two is not a majority: the marks are inserted.
\<close>

theorem applyMultiLineToggle_strict_majority:
  assumes "line selTo < length (lines editor)"
  shows "countUnderlinedLines editor selFrom selTo =
           Some (length (underlinedSlices editor selFrom selTo),
                 length (nonEmptySlices editor selFrom selTo))
    \<and> (\<exists>e'. applyMultiLineToggle editor selFrom selTo = Some e'
          \<and> length (lines e') = length (lines editor)
          \<and> (\<forall>i < length (lines editor).
                lines e' ! i =
                  (if i \<in> set (nonEmptySlices editor selFrom selTo) then
                     (if strictMajority (length (underlinedSlices editor selFrom selTo))
                           (length (nonEmptySlices editor selFrom selTo))
                      then (if i \<in> set (underlinedSlices editor selFrom selTo)
                            then strippedLine editor selFrom selTo i else lines editor ! i)
                      else (if i \<in> set (underlinedSlices editor selFrom selTo)
                            then lines editor ! i else wrappedLine editor selFrom selTo i))
                   else lines editor ! i)))
    \<and> \<not> shouldRemove 1 2
    \<and> applyMultiLineToggle
         \<lparr>lines = [js ''_a_'', js ''b''], cursorFrom = \<lparr>line = 0, ch = 0\<rparr>,
          cursorTo = \<lparr>line = 1, ch = 1\<rparr>\<rparr> \<lparr>line = 0, ch = 0\<rparr> \<lparr>line = 1, ch = 1\<rparr> =
       Some \<lparr>lines = [js ''_a_'', js ''_b_''], cursorFrom = \<lparr>line = 0, ch = 0\<rparr>,
             cursorTo = \<lparr>line = 1, ch = 1\<rparr>\<rparr>"
proof -
  define u where "u = length (underlinedSlices editor selFrom selTo)"
  define t where "t = length (nonEmptySlices editor selFrom selTo)"
  have count: "countUnderlinedLines editor selFrom selTo = Some (u, t)"
    unfolding countUnderlinedLines_def countLoop_counts [OF assms]
    by (simp add: u_def t_def underlinedSlices_def nonEmptySlices_def del: upt_Suc)
  from assms have "int (line selTo) < int (length (lines editor))" by simp
  from applyLoop_lines [OF this, of selFrom selTo "shouldRemove u t"] obtain e' where
    e': "applyLoop editor selFrom selTo (shouldRemove u t) (int (line selTo)) = Some e'"
      "length (lines e') = length (lines editor)"
      "\<forall>j < length (lines editor).
         lines e' ! j =
           (if int (line selFrom) \<le> int j \<and> int j \<le> int (line selTo)
            then votedLine editor selFrom selTo (shouldRemove u t) j else lines editor ! j)"
    by blast
  have run: "applyMultiLineToggle editor selFrom selTo = Some e'"
    by (simp add: applyMultiLineToggle_def count e'(1))
  have each: "lines e' ! i =
                  (if i \<in> set (nonEmptySlices editor selFrom selTo) then
                     (if strictMajority u t
                      then (if i \<in> set (underlinedSlices editor selFrom selTo)
                            then strippedLine editor selFrom selTo i else lines editor ! i)
                      else (if i \<in> set (underlinedSlices editor selFrom selTo)
                            then lines editor ! i else wrappedLine editor selFrom selTo i))
                   else lines editor ! i)"
    if "i < length (lines editor)" for i
  proof -
    from e'(3) that have "lines e' ! i =
           (if line selFrom \<le> i \<and> i \<le> line selTo
            then votedLine editor selFrom selTo (strictMajority u t) i else lines editor ! i)"
      by (simp add: shouldRemove_strict)
    then show ?thesis
      by (simp add: votedLine_def underlinedSlices_iff nonEmptySlices_iff)
  qed
  have tie: "\<not> shouldRemove 1 2" by (simp add: shouldRemove_def)
  have scenario: "applyMultiLineToggle
         \<lparr>lines = [js ''_a_'', js ''b''], cursorFrom = \<lparr>line = 0, ch = 0\<rparr>,
          cursorTo = \<lparr>line = 1, ch = 1\<rparr>\<rparr> \<lparr>line = 0, ch = 0\<rparr> \<lparr>line = 1, ch = 1\<rparr> =
       Some \<lparr>lines = [js ''_a_'', js ''_b_''], cursorFrom = \<lparr>line = 0, ch = 0\<rparr>,
             cursorTo = \<lparr>line = 1, ch = 1\<rparr>\<rparr>"
    by code_simp
  from count run e'(2) each tie scenario show ?thesis
    unfolding u_def t_def by blast
qed

theorem applyMultiLineToggle_strict_majority_witness:
  "countUnderlinedLines
     \<lparr>lines = [js ''_first_'', js ''_second_'', js ''plain''],
      cursorFrom = \<lparr>line = 0, ch = 0\<rparr>, cursorTo = \<lparr>line = 2, ch = 5\<rparr>\<rparr>
     \<lparr>line = 0, ch = 0\<rparr> \<lparr>line = 2, ch = 5\<rparr> = Some (2, 3)
   \<and> (\<exists>e'. applyMultiLineToggle
              \<lparr>lines = [js ''_first_'', js ''_second_'', js ''plain''],
               cursorFrom = \<lparr>line = 0, ch = 0\<rparr>, cursorTo = \<lparr>line = 2, ch = 5\<rparr>\<rparr>
              \<lparr>line = 0, ch = 0\<rparr> \<lparr>line = 2, ch = 5\<rparr> = Some e'
          \<and> lines e' ! 0 = js ''first'' \<and> lines e' ! 1 = js ''second''
          \<and> lines e' ! 2 = js ''plain'')"
proof -
  let ?e = "\<lparr>lines = [js ''_first_'', js ''_second_'', js ''plain''],
             cursorFrom = \<lparr>line = 0, ch = 0\<rparr>, cursorTo = \<lparr>line = 2, ch = 5\<rparr>\<rparr>"
  let ?p = "\<lparr>line = 0, ch = 0\<rparr>" and ?q = "\<lparr>line = 2, ch = 5\<rparr>"
  have h: "line ?q < length (lines ?e)" by simp
  have n: "nonEmptySlices ?e ?p ?q = [0, 1, 2]" by code_simp
  have u: "underlinedSlices ?e ?p ?q = [0, 1]" by code_simp
  have m: "strictMajority (length [0, 1::nat]) (length [0, 1, 2::nat])"
    by (simp add: strictMajority_def)
  have s0: "strippedLine ?e ?p ?q 0 = js ''first''" by code_simp
  have s1: "strippedLine ?e ?p ?q 1 = js ''second''" by code_simp
  note T = applyMultiLineToggle_strict_majority [OF h, of ?p, unfolded n u]
  from T have c: "countUnderlinedLines ?e ?p ?q = Some (2, 3)" by simp
  from T obtain e' where e': "applyMultiLineToggle ?e ?p ?q = Some e'"
    and each: "\<forall>i < length (lines ?e).
                lines e' ! i =
                  (if i \<in> set [0, 1, 2::nat] then
                     (if strictMajority (length [0, 1::nat]) (length [0, 1, 2::nat])
                      then (if i \<in> set [0, 1::nat]
                            then strippedLine ?e ?p ?q i else lines ?e ! i)
                      else (if i \<in> set [0, 1::nat]
                            then lines ?e ! i else wrappedLine ?e ?p ?q i))
                   else lines ?e ! i)"
    by blast
  have l: "length (lines ?e) = 3" by simp
  from each [unfolded l, rule_format, of 0] m
  have r0: "lines e' ! 0 = strippedLine ?e ?p ?q 0" by simp
  from each [unfolded l, rule_format, of 1] m
  have r1: "lines e' ! 1 = strippedLine ?e ?p ?q 1" by simp
  from each [unfolded l, rule_format, of 2] m
  have r2: "lines e' ! 2 = js ''plain''" by simp
  from r0 r1 r2 s0 s1 c e' show ?thesis by auto
qed

section \<open>Properties of the scanner\<close>

lemma contentClass_iff: "contentClass c \<longleftrightarrow> c \<noteq> underscore \<and> c \<noteq> 0x0A"
  by (auto simp add: contentClass_def classMatches_def underscore_def)

lemma lazyContent_Some:
  assumes "lazyContent s j = Some e"
  shows "j < e \<and> e \<le> length s \<and> s ! (e - 1) = underscore
         \<and> (\<forall>k. j \<le> k \<and> k < e - 1 \<longrightarrow> contentClass (s ! k))"
  using assms
proof (induction s j rule: lazyContent.induct)
  case (1 s j)
  show ?case
  proof (cases "j < length s \<and> s ! j = underscore")
    case True
    with "1.prems" have "e = Suc j" by (subst (asm) lazyContent.simps) simp
    with True show ?thesis by auto
  next
    case False
    show ?thesis
    proof (cases "j < length s \<and> contentClass (s ! j)")
      case True
      with False "1.prems" have "lazyContent s (Suc j) = Some e"
        by (subst (asm) lazyContent.simps) simp
      from "1.IH" [OF False True this]
      have ih: "Suc j < e" "e \<le> length s" "s ! (e - 1) = underscore"
        "\<forall>k. Suc j \<le> k \<and> k < e - 1 \<longrightarrow> contentClass (s ! k)"
        by simp_all
      have "contentClass (s ! k)" if "j \<le> k \<and> k < e - 1" for k
      proof (cases "k = j")
        case True
        with \<open>j < length s \<and> contentClass (s ! j)\<close> show ?thesis by simp
      next
        case False
        with that have "Suc j \<le> k \<and> k < e - 1" by simp
        with ih(4) show ?thesis by blast
      qed
      with ih show ?thesis by simp
    next
      case no: False
      with False "1.prems" show ?thesis
        by (subst (asm) lazyContent.simps) (auto split: if_splits)
    qed
  qed
qed

text \<open>What a match of the pattern from index \<open>i\<close> to index \<open>e\<close> is.\<close>

lemma matchAt_Some:
  assumes "matchAt s i = Some e"
  shows "i + 3 \<le> e \<and> e \<le> length s \<and> s ! i = underscore \<and> s ! (e - 1) = underscore
         \<and> (\<forall>k. i < k \<and> k < e - 1 \<longrightarrow> s ! k \<noteq> underscore \<and> s ! k \<noteq> 0x0A)"
proof -
  from assms have i: "s ! i = underscore" and c: "contentClass (s ! Suc i)"
    and l: "lazyContent s (Suc (Suc i)) = Some e"
    by (simp_all add: matchAt_def split: if_splits)
  from lazyContent_Some [OF l]
  have e: "Suc (Suc i) < e" "e \<le> length s" "s ! (e - 1) = underscore"
    "\<forall>k. Suc (Suc i) \<le> k \<and> k < e - 1 \<longrightarrow> contentClass (s ! k)"
    by simp_all
  have "contentClass (s ! k)" if "i < k \<and> k < e - 1" for k
  proof (cases "k = Suc i")
    case True
    with c show ?thesis by simp
  next
    case False
    with that have "Suc (Suc i) \<le> k \<and> k < e - 1" by simp
    with e(4) show ?thesis by blast
  qed
  with i e show ?thesis by (simp add: contentClass_iff)
qed

lemma UNDERSCORE_RE_exec_Some:
  assumes "UNDERSCORE_RE_exec s i = Some (m, e)"
  shows "i \<le> m \<and> matchAt s m = Some e"
  using assms
proof (induction s i rule: UNDERSCORE_RE_exec.induct)
  case (1 s i)
  show ?case
  proof (cases "matchAt s i")
    case None
    with "1.prems" have le: "\<not> length s < i" and "UNDERSCORE_RE_exec s (Suc i) = Some (m, e)"
      by (subst (asm) UNDERSCORE_RE_exec.simps, simp split: if_splits)+
    with "1.IH" [OF le None] show ?thesis by simp
  next
    case (Some e')
    with "1.prems" have "m = i" "e = e'"
      by (subst (asm) UNDERSCORE_RE_exec.simps, simp split: if_splits)+
    with Some show ?thesis by simp
  qed
qed

text \<open>
  The decorations of a line are those of a list of matches, each of them an underscore,
  at least one character that is neither an underscore nor a newline, and an underscore.
\<close>

lemma scanLine_matches:
  "\<exists>ms. scanLine lineFrom s lastIndex =
          concat (map (\<lambda>(i, e). [(lineFrom + i, lineFrom + i + 1, underscoreMarkDecoration),
                                  (lineFrom + i + 1, lineFrom + e - 1, underscoreContentDecoration),
                                  (lineFrom + e - 1, lineFrom + e, underscoreMarkDecoration)]) ms)
        \<and> sorted_wrt (\<lambda>(i, e) (i', e'). e \<le> i') ms
        \<and> (\<forall>(i, e) \<in> set ms.
              lastIndex \<le> i \<and> i + 3 \<le> e \<and> e \<le> length s
              \<and> s ! i = underscore \<and> s ! (e - 1) = underscore
              \<and> (\<forall>k. i < k \<and> k < e - 1 \<longrightarrow> s ! k \<noteq> underscore \<and> s ! k \<noteq> 0x0A))"
proof (induction lineFrom s lastIndex rule: scanLine.induct)
  case (1 lineFrom s lastIndex)
  show ?case
  proof (cases "UNDERSCORE_RE_exec s lastIndex")
    case None
    then have "scanLine lineFrom s lastIndex = []" by (subst scanLine.simps) simp
    then show ?thesis by (intro exI [of _ "[]"]) simp
  next
    case (Some x)
    obtain m e where x: "x = (m, e)" by (cases x)
    from UNDERSCORE_RE_exec_Some [OF Some [unfolded x]]
    have lm: "lastIndex \<le> m" and ma: "matchAt s m = Some e" by simp_all
    note v = matchAt_Some [OF ma]
    from v have me: "m + 3 \<le> e" by simp
    from "1.IH" [OF Some x [symmetric] refl refl] obtain ms where
      ms: "scanLine lineFrom s e =
          concat (map (\<lambda>(i, e). [(lineFrom + i, lineFrom + i + 1, underscoreMarkDecoration),
                                  (lineFrom + i + 1, lineFrom + e - 1, underscoreContentDecoration),
                                  (lineFrom + e - 1, lineFrom + e, underscoreMarkDecoration)]) ms)"
      and srt: "sorted_wrt (\<lambda>(i, e) (i', e'). e \<le> i') ms"
      and all: "\<forall>(i, e') \<in> set ms.
              e \<le> i \<and> i + 3 \<le> e' \<and> e' \<le> length s
              \<and> s ! i = underscore \<and> s ! (e' - 1) = underscore
              \<and> (\<forall>k. i < k \<and> k < e' - 1 \<longrightarrow> s ! k \<noteq> underscore \<and> s ! k \<noteq> 0x0A)"
      by blast
    from me have pe: "lineFrom + m + (e - m) = lineFrom + e" by simp
    have unfold: "scanLine lineFrom s lastIndex =
        [(lineFrom + m, lineFrom + m + 1, underscoreMarkDecoration),
         (lineFrom + m + 1, lineFrom + e - 1, underscoreContentDecoration),
         (lineFrom + e - 1, lineFrom + e, underscoreMarkDecoration)]
        @ scanLine lineFrom s e"
      by (subst scanLine.simps) (simp add: Some x Let_def pe)
    have "\<forall>(i, e') \<in> set ((m, e) # ms).
              lastIndex \<le> i \<and> i + 3 \<le> e' \<and> e' \<le> length s
              \<and> s ! i = underscore \<and> s ! (e' - 1) = underscore
              \<and> (\<forall>k. i < k \<and> k < e' - 1 \<longrightarrow> s ! k \<noteq> underscore \<and> s ! k \<noteq> 0x0A)"
      using all v lm me by auto
    moreover have "sorted_wrt (\<lambda>(i, e) (i', e'). e \<le> i') ((m, e) # ms)"
      using srt all by auto
    ultimately show ?thesis
      by (intro exI [of _ "(m, e) # ms"]) (simp add: unfold ms)
  qed
qed

lemma two_underscores:
  assumes "i < j" and "j < length s" and "s ! i = underscore" and "s ! j = underscore"
  shows "2 \<le> length (filter (\<lambda>c. c = underscore) s)"
proof -
  have "s ! i \<in> set (take j s)"
    using assms(1,2) by (metis in_set_conv_nth length_take min.absorb2 less_imp_le_nat nth_take)
  with assms(3) have a: "filter (\<lambda>c. c = underscore) (take j s) \<noteq> []"
    by (auto simp add: filter_empty_conv)
  have "s ! j \<in> set (drop j s)"
    using assms(2) by (metis Cons_nth_drop_Suc list.set_intros(1))
  with assms(4) have b: "filter (\<lambda>c. c = underscore) (drop j s) \<noteq> []"
    by (auto simp add: filter_empty_conv)
  have "filter (\<lambda>c. c = underscore) s =
          filter (\<lambda>c. c = underscore) (take j s) @ filter (\<lambda>c. c = underscore) (drop j s)"
    by (metis append_take_drop_id filter_append)
  moreover from a have "1 \<le> length (filter (\<lambda>c. c = underscore) (take j s))"
    by (simp add: Suc_le_eq)
  moreover from b have "1 \<le> length (filter (\<lambda>c. c = underscore) (drop j s))"
    by (simp add: Suc_le_eq)
  ultimately show ?thesis by simp
qed

text \<open>
  C5. The line \<open>_a_ _b_\<close> gets the decorations of two spans, \<open>[0, 3)\<close> and \<open>[4, 7)\<close>. On
  every line the decorations are those of a list of matches, found from left to right
  without overlap, each an underscore, then at least one character that is neither an
  underscore nor a newline, then an underscore: so every content decoration covers at
  least one character, two adjacent underscores are never a span, and a line with no
  more than one underscore gets no decoration.
\<close>

theorem scanLine_pairs_underscores:
  "scanLine 0 (js ''_a_ _b_'') 0 =
     [(0, 1, underscoreMarkDecoration), (1, 2, underscoreContentDecoration),
      (2, 3, underscoreMarkDecoration), (4, 5, underscoreMarkDecoration),
      (5, 6, underscoreContentDecoration), (6, 7, underscoreMarkDecoration)]
   \<and> (length (filter (\<lambda>c. c = underscore) s) \<le> 1 \<longrightarrow> scanLine lineFrom s 0 = [])
   \<and> (\<exists>ms. scanLine lineFrom s 0 =
          concat (map (\<lambda>(i, e). [(lineFrom + i, lineFrom + i + 1, underscoreMarkDecoration),
                                  (lineFrom + i + 1, lineFrom + e - 1, underscoreContentDecoration),
                                  (lineFrom + e - 1, lineFrom + e, underscoreMarkDecoration)]) ms)
        \<and> sorted_wrt (\<lambda>(i, e) (i', e'). e \<le> i') ms
        \<and> (\<forall>(i, e) \<in> set ms.
              i + 3 \<le> e \<and> e \<le> length s
              \<and> s ! i = underscore \<and> s ! (e - 1) = underscore
              \<and> (\<forall>k. i < k \<and> k < e - 1 \<longrightarrow> s ! k \<noteq> underscore \<and> s ! k \<noteq> 0x0A)))
   \<and> (\<forall>(a, b, d) \<in> set (scanLine lineFrom s 0). d = underscoreContentDecoration \<longrightarrow> a < b)"
proof -
  have two: "scanLine 0 (js ''_a_ _b_'') 0 =
     [(0, 1, underscoreMarkDecoration), (1, 2, underscoreContentDecoration),
      (2, 3, underscoreMarkDecoration), (4, 5, underscoreMarkDecoration),
      (5, 6, underscoreContentDecoration), (6, 7, underscoreMarkDecoration)]"
    by code_simp
  from scanLine_matches [of lineFrom s 0] obtain ms where
    ms: "scanLine lineFrom s 0 =
          concat (map (\<lambda>(i, e). [(lineFrom + i, lineFrom + i + 1, underscoreMarkDecoration),
                                  (lineFrom + i + 1, lineFrom + e - 1, underscoreContentDecoration),
                                  (lineFrom + e - 1, lineFrom + e, underscoreMarkDecoration)]) ms)"
    and srt: "sorted_wrt (\<lambda>(i, e) (i', e'). e \<le> i') ms"
    and all: "\<forall>(i, e) \<in> set ms.
              i + 3 \<le> e \<and> e \<le> length s
              \<and> s ! i = underscore \<and> s ! (e - 1) = underscore
              \<and> (\<forall>k. i < k \<and> k < e - 1 \<longrightarrow> s ! k \<noteq> underscore \<and> s ! k \<noteq> 0x0A)"
    by auto
  have lone: "scanLine lineFrom s 0 = []" if one: "length (filter (\<lambda>c. c = underscore) s) \<le> 1"
  proof (cases ms)
    case Nil
    with ms show ?thesis by simp
  next
    case (Cons x xs)
    obtain i e where x: "x = (i, e)" by (cases x)
    with Cons all have "i + 3 \<le> e" "e \<le> length s" "s ! i = underscore" "s ! (e - 1) = underscore"
      by auto
    then have "2 \<le> length (filter (\<lambda>c. c = underscore) s)"
      by (intro two_underscores [of i "e - 1"]) simp_all
    with one show ?thesis by simp
  qed
  have content: "\<forall>(a, b, d) \<in> set (scanLine lineFrom s 0). d = underscoreContentDecoration \<longrightarrow> a < b"
    unfolding ms using all by auto
  from two lone ms srt all content show ?thesis by blast
qed

theorem scanLine_pairs_underscores_witness:
  "scanLine 3 (js ''x_y'') 0 = []
   \<and> scanLine 0 (js ''_ab_ c'') 0 =
       [(0, 1, underscoreMarkDecoration), (1, 3, underscoreContentDecoration),
        (3, 4, underscoreMarkDecoration)]
   \<and> (1::nat) < 3"
proof -
  have one: "length (filter (\<lambda>c. c = underscore) (js ''x_y'')) \<le> 1" by code_simp
  have a: "scanLine 3 (js ''x_y'') 0 = []"
    using scanLine_pairs_underscores [of "js ''x_y''" 3] one by blast
  have b: "scanLine 0 (js ''_ab_ c'') 0 =
       [(0, 1, underscoreMarkDecoration), (1, 3, underscoreContentDecoration),
        (3, 4, underscoreMarkDecoration)]"
    by code_simp
  have "\<forall>(a, b, d) \<in> set (scanLine 0 (js ''_ab_ c'') 0).
         d = underscoreContentDecoration \<longrightarrow> a < b"
    using scanLine_pairs_underscores [of "js ''_ab_ c''" 0] by blast
  then have c: "(1::nat) < 3" unfolding b by simp
  from a b c show ?thesis by blast
qed

end
